theory Spec2Isabelle
  imports Complex_Main "HOL-Library.Word" "HOL-Library.Multiset" "HOL-Library.Log_Nat"
begin

unbundle bit_operations_syntax

section \<open>Data model of the storage benchmark\<close>

text \<open>
  The benchmark computes with C++ \<open>double\<close>, \<open>size_t\<close> and \<open>steady_clock\<close> time points.
  \<^item> A \<open>double\<close> is modelled by the real number it denotes. Every arithmetic operation
    of the source on doubles is the exact operation followed by the rounding \<open>rnd\<close> to
    the nearest number with a 53-bit mantissa, ties to the even mantissa, as IEEE 754
    binary64 has it. The exponent range is not bounded here: overflow to an infinity and
    subnormal numbers are not modelled. The two divisions of the program can divide by
    zero, where C++ yields an infinity or a NaN; their results are of type \<open>fp\<close>, which
    keeps these apart from the numbers.
  \<^item> \<open>size_t\<close> is a 64-bit word.
  \<^item> A \<open>time_point<steady_clock>\<close> is an integer count of nanoseconds.
\<close>

type_synonym double = real
type_synonym size_t = "64 word"
type_synonym time_point = int

text \<open>Rounding to the nearest integer, ties to even.\<close>

definition round_even :: "real \<Rightarrow> int" where
  "round_even y =
     (let f = \<lfloor>y\<rfloor>; r = y - of_int f
      in if r < 1 / 2 then f else if 1 / 2 < r then f + 1 else if even f then f else f + 1)"

text \<open>The binary exponent of a positive number: \<open>2 powi expo x \<le> x < 2 powi (expo x + 1)\<close>.\<close>

definition expo :: "real \<Rightarrow> int" where
  "expo x = (if 1 \<le> x then bitlen \<lfloor>x\<rfloor> - 1 else - bitlen (\<lceil>1 / x\<rceil> - 1))"

definition rnd_pos :: "real \<Rightarrow> real" where
  "rnd_pos x = (let u = 2 powi (expo x - 52) in of_int (round_even (x / u)) * u)"

definition rnd :: "real \<Rightarrow> double" where
  "rnd x = (if x = 0 then 0 else if 0 < x then rnd_pos x else - rnd_pos (- x))"

definition is_double :: "real \<Rightarrow> bool" where
  "is_double x \<longleftrightarrow> rnd x = x"

definition dadd :: "double \<Rightarrow> double \<Rightarrow> double" where
  "dadd x y = rnd (x + y)"

definition dsub :: "double \<Rightarrow> double \<Rightarrow> double" where
  "dsub x y = rnd (x - y)"

definition dmul :: "double \<Rightarrow> double \<Rightarrow> double" where
  "dmul x y = rnd (x * y)"

text \<open>The conversion of a size or of a count of clock ticks to \<open>double\<close>.\<close>

definition double_of_nat :: "nat \<Rightarrow> double" where
  "double_of_nat n = rnd (real n)"

definition double_of_int :: "int \<Rightarrow> double" where
  "double_of_int k = rnd (of_int k)"

datatype fp = Fin double | NonFinite

definition fp_div :: "double \<Rightarrow> double \<Rightarrow> fp" where
  "fp_div x y = (if y = 0 then NonFinite else Fin (rnd (x / y)))"

fun fp_times :: "fp \<Rightarrow> double \<Rightarrow> fp" where
  "fp_times (Fin x) k = Fin (dmul x k)"
| "fp_times NonFinite k = NonFinite"

text \<open>\<open>duration_cast<sec>(later - earlier).count()\<close>, with \<open>sec\<close> a \<open>double\<close> count of
  microseconds: the count of nanoseconds is converted to \<open>double\<close> and divided by
  1000.\<close>

definition micros :: "time_point \<Rightarrow> time_point \<Rightarrow> double" where
  "micros later earlier = rnd (double_of_int (later - earlier) / 1000)"

text \<open>The conversion of a non-negative \<open>double\<close> to \<open>size_t\<close> truncates.\<close>

definition to_size_t :: "double \<Rightarrow> nat" where
  "to_size_t x = nat \<lfloor>x\<rfloor>"

definition kMaxCatchUpUS :: "64 word" where
  "kMaxCatchUpUS = 5"

record work_unit =
  start_us :: double
  lba :: size_t
  is_set :: bool
  duration_us :: double

section \<open>GenerateWork\<close>

text \<open>
  The template parameters \<open>Arrival\<close> and \<open>Service\<close> are function objects that carry
  their own random state. A sampler is a function from that state to the value drawn and
  the next state. \<open>pct_set\<close> is the global of that name. The loop runs as long as the
  running offset is below \<open>last_us\<close>, which no draw is bound to achieve: the result is
  \<open>None\<close> when it never returns. \<open>cur_us += a()\<close> is an addition of doubles.
\<close>

type_synonym ('st, 'v) sampler = "'st \<Rightarrow> 'v \<times> 'st"

partial_function (option) GenerateWork_loop ::
  "size_t \<Rightarrow> ('sa, double) sampler \<Rightarrow> ('ss, size_t) sampler \<Rightarrow> 'sa \<Rightarrow> 'ss \<Rightarrow>
   work_unit list \<Rightarrow> double \<Rightarrow> double \<Rightarrow> work_unit list option" where
  "GenerateWork_loop pct_set a s sa ss w cur_us last_us =
     (if cur_us < last_us then
        (case a sa of (gap, sa') \<Rightarrow>
         let cur_us' = dadd cur_us gap in
         case s ss of (r1, ss1) \<Rightarrow>
         let set = (r1 mod 100 < pct_set) in
         case s ss1 of (r2, ss2) \<Rightarrow>
         GenerateWork_loop pct_set a s sa' ss2
           (w @ [\<lparr>start_us = cur_us', lba = r2 AND NOT 7, is_set = set, duration_us = 0\<rparr>])
           cur_us' last_us)
      else Some w)"

declare GenerateWork_loop.simps [code]

definition GenerateWork ::
  "size_t \<Rightarrow> ('sa, double) sampler \<Rightarrow> ('ss, size_t) sampler \<Rightarrow> 'sa \<Rightarrow> 'ss \<Rightarrow>
   double \<Rightarrow> double \<Rightarrow> work_unit list option" where
  "GenerateWork pct_set a s sa ss cur_us last_us =
     GenerateWork_loop pct_set a s sa ss [] cur_us last_us"

text \<open>Two deterministic samplers, for running the generator on concrete draws: a constant
  gap, and block numbers 7, 20, 33, ...\<close>

definition fixed_gap :: "double \<Rightarrow> (nat, double) sampler" where
  "fixed_gap g = (\<lambda>n. (g, Suc n))"

definition stepping_blocks :: "(nat, size_t) sampler" where
  "stepping_blocks = (\<lambda>n. (word_of_nat (13 * n + 7), Suc n))"

section \<open>ClientWorker\<close>

text \<open>
  What a worker observes of its surroundings is a parameter of the model: the readings of
  the steady clock at each place where the source reads it, the status the storage
  backend returns for the operation issued for item \<open>i\<close>, and the content of the storage
  that \<open>timings.reserve\<close> allocates and does not initialise. The backend is taken to
  answer every operation it is given, so that \<open>wg.Wait()\<close> returns.
\<close>

record env =
  expstart :: time_point                \<comment> \<open>line 63\<close>
  now_loop :: "nat \<Rightarrow> time_point"        \<comment> \<open>line 72, iteration \<open>i\<close>\<close>
  now_woken :: "nat \<Rightarrow> time_point"       \<comment> \<open>line 76\<close>
  now_dispatch :: "nat \<Rightarrow> time_point"    \<comment> \<open>line 84\<close>
  storage_ret :: "nat \<Rightarrow> int"            \<comment> \<open>\<open>ret\<close> of \<open>storage_write\<close> / \<open>storage_read\<close>\<close>
  now_complete :: "nat \<Rightarrow> time_point"    \<comment> \<open>line 97\<close>
  reserved_content :: "nat \<Rightarrow> time_point"

text \<open>
  \<open>std::vector::operator[]\<close> checks nothing: it addresses slot \<open>i\<close> of the vector's
  allocation. The vector \<open>timings\<close> is created empty and only \<open>reserve\<close> is called on
  it, so its allocation has \<open>w.size()\<close> slots and its size stays 0. The model keeps
  the size, the capacity and the slots of such a vector apart, and it records every
  subscript a worker performs together with the size of the subscripted vector at that
  moment.
\<close>

record 'a reserved_vector =
  vsize :: nat
  vcapacity :: nat
  vslots :: "nat \<Rightarrow> 'a"

datatype vector_name = Vec_w | Vec_timings

record subscript =
  svec :: vector_name
  sidx :: nat
  ssize :: nat

definition in_bounds :: "subscript \<Rightarrow> bool" where
  "in_bounds a \<longleftrightarrow> sidx a < ssize a"

datatype storage_op = Storage_write size_t | Storage_read size_t

record worker_state =
  w_vec :: "work_unit list"             \<comment> \<open>the vector \<open>w\<close>\<close>
  timings :: "time_point reserved_vector"
  dropped :: nat
  sleeps :: "(nat \<times> double) list"        \<comment> \<open>item, argument of \<open>rt::Sleep\<close>\<close>
  issued :: "(nat \<times> storage_op) list"    \<comment> \<open>item, operation issued against the backend\<close>
  subs :: "subscript list"

definition sub_w :: "nat \<Rightarrow> worker_state \<Rightarrow> worker_state" where
  "sub_w i st = st\<lparr>subs := subs st @ [\<lparr>svec = Vec_w, sidx = i, ssize = length (w_vec st)\<rparr>]\<rparr>"

definition sub_timings :: "nat \<Rightarrow> worker_state \<Rightarrow> worker_state" where
  "sub_timings i st =
     st\<lparr>subs := subs st @ [\<lparr>svec = Vec_timings, sidx = i, ssize = vsize (timings st)\<rparr>]\<rparr>"

text \<open>
  The body of the thread spawned for item \<open>i\<close> (lines 86 to 102). It reads \<open>w[i]\<close> and
  \<open>timings[i]\<close> and writes \<open>w[i].duration_us\<close>, and no other thread touches these
  elements before \<open>wg.Wait()\<close> returns, so its effect is applied where it is spawned.
\<close>

definition spawned :: "env \<Rightarrow> nat \<Rightarrow> worker_state \<Rightarrow> worker_state" where
  "spawned e i st0 =
     (let st1 = sub_w i st0;
          st2 = sub_w i st1;
          st3 = (if is_set (w_vec st2 ! i)
                 then st2\<lparr>issued := issued st2 @ [(i, Storage_write (lba (w_vec st2 ! i)))]\<rparr>
                 else st2\<lparr>issued := issued st2 @ [(i, Storage_read (lba (w_vec st2 ! i)))]\<rparr>);
          ret = storage_ret e i;
          ts = now_complete e i
      in if ret = 0 then
           (let st4 = sub_timings i (sub_w i st3)
            in st4\<lparr>w_vec := (w_vec st4)[i := (w_vec st4 ! i)
                  \<lparr>duration_us := micros ts (vslots (timings st4) i)\<rparr>]\<rparr>)
         else st3)"

text \<open>One iteration of the replay loop (lines 71 to 102). The differences of line 75 and
  line 77 are differences of doubles, and the tolerance is converted to \<open>double\<close> for
  the comparison.\<close>

definition replay_item :: "env \<Rightarrow> nat \<Rightarrow> worker_state \<Rightarrow> worker_state" where
  "replay_item e i st0 =
     (let now = now_loop e i;
          st1 = sub_w i st0;
          st2 = (if micros now (expstart e) < start_us (w_vec st1 ! i)
                 then (let st = sub_w i st1
                       in st\<lparr>sleeps := sleeps st @
                            [(i, dsub (start_us (w_vec st ! i)) (micros now (expstart e)))]\<rparr>)
                 else st1);
          now' = now_woken e i;
          st3 = sub_w i st2
      in if dsub (micros now' (expstart e)) (start_us (w_vec st3 ! i)) >
              double_of_nat (unat kMaxCatchUpUS)
         then st3\<lparr>dropped := dropped st3 + 1\<rparr>
         else
           (let st4 = sub_timings i st3;
                st5 = st4\<lparr>timings := (timings st4)
                        \<lparr>vslots := (vslots (timings st4))(i := now_dispatch e i)\<rparr>\<rparr>
            in spawned e i st5))"

text \<open>
  \<open>wf_result\<close> is the outcome of the call \<open>wf()\<close>: the schedule, or \<open>None\<close> when the call
  does not return. The worker itself has no defined result in two cases, for which the
  model answers \<open>None\<close> as well. The loop counter is an \<open>unsigned int\<close> compared with a
  \<open>size_t\<close>: on a schedule of \<open>2 ^ 32\<close> items or more it wraps around before it reaches
  the bound, and the worker never returns. The counter \<open>dropped\<close> is an \<open>int\<close>: its
  increment overflows, which is undefined, once \<open>2 ^ 31\<close> items have been dropped; as
  the counter only grows by one, this has happened exactly when the count, kept
  unbounded in the state, has reached \<open>2 ^ 31\<close> at the end. Otherwise the result is the
  state at the return; the source returns its component \<open>w_vec\<close>.
\<close>

definition ClientWorker :: "env \<Rightarrow> work_unit list option \<Rightarrow> worker_state option" where
  "ClientWorker e wf_result =
     (case wf_result of
        None \<Rightarrow> None
      | Some w0 \<Rightarrow>
          (let st = \<lparr>w_vec = w0,
                     timings = \<lparr>vsize = 0, vcapacity = length w0,
                                vslots = reserved_content e\<rparr>,
                     dropped = 0, sleeps = [], issued = [], subs = []\<rparr>;
               wsize = length w0
           in if wsize < 2 ^ 32
              then (let st1 = fold (replay_item e) [0..<wsize] st
                    in if dropped st1 < 2 ^ 31 then Some st1 else None)
              else None))"

text \<open>The lateness test of line 77 for item \<open>i\<close> of schedule \<open>w0\<close>.\<close>

definition late :: "env \<Rightarrow> work_unit list \<Rightarrow> nat \<Rightarrow> bool" where
  "late e w0 i \<longleftrightarrow>
     dsub (micros (now_woken e i) (expstart e)) (start_us (w0 ! i)) >
       double_of_nat (unat kMaxCatchUpUS)"

text \<open>The operation issued for a work item, and the item as the thread spawned for it
  leaves it when the clock reads \<open>now_dispatch e i\<close> at the dispatch.\<close>

definition op_of :: "work_unit \<Rightarrow> storage_op" where
  "op_of u = (if is_set u then Storage_write (lba u) else Storage_read (lba u))"

definition served :: "env \<Rightarrow> nat \<Rightarrow> work_unit \<Rightarrow> work_unit" where
  "served e i u =
     (if storage_ret e i = 0
      then u\<lparr>duration_us := micros (now_complete e i) (now_dispatch e i)\<rparr> else u)"

text \<open>The state after the first \<open>k\<close> iterations on schedule \<open>w0\<close>.\<close>

definition replayed :: "env \<Rightarrow> work_unit list \<Rightarrow> nat \<Rightarrow> worker_state \<Rightarrow> bool" where
  "replayed e w0 k st \<longleftrightarrow>
     length (w_vec st) = length w0 \<and>
     (\<forall>j < length w0. w_vec st ! j =
        (if j < k \<and> \<not> late e w0 j then served e j (w0 ! j) else w0 ! j)) \<and>
     issued st = map (\<lambda>j. (j, op_of (w0 ! j))) (filter (\<lambda>j. \<not> late e w0 j) [0..<k]) \<and>
     dropped st = length (filter (late e w0) [0..<k]) \<and>
     vsize (timings st) = 0 \<and>
     (\<forall>a \<in> set (subs st). sidx a < k \<and>
        ssize a = (case svec a of Vec_w \<Rightarrow> length w0 | Vec_timings \<Rightarrow> 0)) \<and>
     (\<forall>j < k. \<not> late e w0 j \<longrightarrow> \<lparr>svec = Vec_timings, sidx = j, ssize = 0\<rparr> \<in> set (subs st))"

section \<open>RunExperiment\<close>

text \<open>
  The out-parameters are pointers to \<open>double\<close>: an address, or \<open>None\<close> for
  \<open>nullptr\<close>. The memory they point into maps an address to the \<open>double\<close> stored there.
  Worker \<open>i\<close> runs with the observations \<open>envs i\<close> on \<open>wf_results i\<close>, the outcome of its
  call of \<open>wf\<close>; \<open>start\<close> and \<open>finish\<close> are the clock readings of lines 131 and 139.
  The experiment returns only when every worker does. A negative \<open>threads\<close> is a
  negative bound of the array \<open>samples\<close>, for which the source has no defined result:
  the model answers \<open>None\<close>. The rate is computed in doubles: the size is converted,
  divided by the elapsed microseconds and multiplied by 1000000.
\<close>

type_synonym addr = nat
type_synonym memory = "addr \<Rightarrow> fp"

definition RunExperiment ::
  "int \<Rightarrow> addr option \<Rightarrow> addr option \<Rightarrow> (nat \<Rightarrow> work_unit list option) \<Rightarrow> (nat \<Rightarrow> env) \<Rightarrow>
   time_point \<Rightarrow> time_point \<Rightarrow> memory \<Rightarrow> (work_unit list \<times> memory) option" where
  "RunExperiment threads reqs_per_sec cpu_usage wf_results envs start finish mem =
     (if threads < 0 then None
      else
        case those (map (\<lambda>i. ClientWorker (envs i) (wf_results i)) [0..<nat threads]) of
          None \<Rightarrow> None
        | Some samples \<Rightarrow>
            (let w0 = concat (map w_vec samples);
                 w1 = filter (\<lambda>s. \<not> duration_us s = 0) w0;
                 elapsed = micros finish start;
                 mem1 = (case reqs_per_sec of
                           None \<Rightarrow> mem
                         | Some p \<Rightarrow>
                             mem(p := fp_times (fp_div (double_of_nat (length w1)) elapsed)
                                        1000000))
             in Some (w1, mem1)))"

section \<open>PrintStatResults\<close>

text \<open>
  Here the vector \<open>w\<close> is an ordinary one: its allocation holds its elements and nothing
  else. A subscript beyond the size reads outside the allocation, which the model reports
  as an error value rather than inventing an element.
\<close>

datatype error = OutOfRange nat nat  \<comment> \<open>index, size\<close>

definition subscript_at :: "'a list \<Rightarrow> nat \<Rightarrow> error + 'a" where
  "subscript_at xs i = (if i < length xs then Inr (xs ! i) else Inl (OutOfRange i (length xs)))"

text \<open>\<open>w[count * p].duration_us\<close>, the expression of lines 171 to 174, for a \<open>double\<close>
  \<open>p\<close>: \<open>count\<close> is the size converted to \<open>double\<close>, the product is a product of
  doubles, and the subscript is its truncation.\<close>

definition percentile_at :: "work_unit list \<Rightarrow> double \<Rightarrow> error + double" where
  "percentile_at ws p =
     (let count = double_of_nat (length ws)
      in case subscript_at ws (to_size_t (dmul count p)) of
           Inl e \<Rightarrow> Inl e
         | Inr u \<Rightarrow> Inr (duration_us u))"

text \<open>The values of the printed line, in the order of the output.\<close>

record summary =
  out_threads :: int
  out_offered_rps :: double
  out_rps :: fp
  out_cpu_usage :: fp
  out_samples :: nat
  out_min :: double
  out_mean :: fp
  out_p90 :: double
  out_p99 :: double
  out_p999 :: double
  out_p9999 :: double
  out_max :: double

text \<open>
  \<open>g_threads\<close> is the global \<open>threads\<close>, which the function prints. \<open>std::sort\<close> may
  order items of equal latency either way; only their latency is read afterwards. The
  sum is accumulated from \<open>0.0\<close> in the sorted order, one addition of doubles per item,
  and divided by the size converted to \<open>double\<close>. The literals \<open>0.9\<close>, \<open>0.99\<close>, \<open>0.999\<close>
  and \<open>0.9999\<close> denote the doubles nearest to these fractions. The last rank is computed
  in \<open>size_t\<close>, where \<open>0 - 1\<close> wraps around.
\<close>

definition PrintStatResults ::
  "int \<Rightarrow> work_unit list \<Rightarrow> double \<Rightarrow> fp \<Rightarrow> fp \<Rightarrow> error + summary" where
  "PrintStatResults g_threads w0 offered_rps rps cpu_usage =
     (let ws = sort_key duration_us w0;
          sum = fold (\<lambda>c s. dadd s (duration_us c)) ws 0;
          mean = fp_div sum (double_of_nat (length ws))
      in case percentile_at ws (rnd 0.9) of Inl e \<Rightarrow> Inl e | Inr p90 \<Rightarrow>
        (case percentile_at ws (rnd 0.99) of Inl e \<Rightarrow> Inl e | Inr p99 \<Rightarrow>
        (case percentile_at ws (rnd 0.999) of Inl e \<Rightarrow> Inl e | Inr p999 \<Rightarrow>
        (case percentile_at ws (rnd 0.9999) of Inl e \<Rightarrow> Inl e | Inr p9999 \<Rightarrow>
        (case subscript_at ws 0 of Inl e \<Rightarrow> Inl e | Inr lo \<Rightarrow>
        (case subscript_at ws (unat ((word_of_nat (length ws) :: size_t) - 1)) of
           Inl e \<Rightarrow> Inl e
         | Inr hi \<Rightarrow>
             Inr \<lparr>out_threads = g_threads, out_offered_rps = offered_rps, out_rps = rps,
                  out_cpu_usage = cpu_usage, out_samples = length ws,
                  out_min = duration_us lo, out_mean = mean, out_p90 = p90, out_p99 = p99,
                  out_p999 = p999, out_p9999 = p9999, out_max = duration_us hi\<rparr>))))))"

section \<open>SteadyStateExperiment\<close>

text \<open>
  The locals \<open>rps\<close> and \<open>cpu_usage\<close> are declared without an initialiser: they live at
  two distinct addresses of \<open>mem\<close>, whose content at entry is whatever the caller's stack
  holds. \<open>rd\<close> and \<open>wd\<close> are the two bound distributions, \<open>seeds i\<close> the states of their
  generators in worker \<open>i\<close>. The result is the line printed, or \<open>None\<close> when the
  experiment does not return.
\<close>

definition rps_addr :: addr where
  "rps_addr = 0"

definition cpu_usage_addr :: addr where
  "cpu_usage_addr = 1"

definition SteadyStateExperiment ::
  "int \<Rightarrow> size_t \<Rightarrow> int \<Rightarrow> double \<Rightarrow> ('sa, double) sampler \<Rightarrow> ('ss, size_t) sampler \<Rightarrow>
   (nat \<Rightarrow> 'sa \<times> 'ss) \<Rightarrow> (nat \<Rightarrow> env) \<Rightarrow> time_point \<Rightarrow> time_point \<Rightarrow> memory \<Rightarrow>
   (error + summary) option" where
  "SteadyStateExperiment g_threads pct_set threads offered_rps rd wd seeds envs start finish mem =
     (case RunExperiment threads (Some rps_addr) (Some cpu_usage_addr)
             (\<lambda>i. GenerateWork pct_set rd wd (fst (seeds i)) (snd (seeds i)) 0 5000000)
             envs start finish mem of
        None \<Rightarrow> None
      | Some (w1, mem1) \<Rightarrow>
          Some (PrintStatResults g_threads w1 offered_rps (mem1 rps_addr) (mem1 cpu_usage_addr)))"

section \<open>Concrete inputs\<close>

text \<open>A worker environment in which the clock reads 20 microseconds after the start at
  every wake-up and every operation is dispatched 1 microsecond later and takes 2
  microseconds; \<open>status\<close> is what the backend returns for each.\<close>

definition woken_at_20 :: "int \<Rightarrow> env" where
  "woken_at_20 status =
     \<lparr>expstart = 0, now_loop = (\<lambda>i. 0), now_woken = (\<lambda>i. 20000),
      now_dispatch = (\<lambda>i. 21000), storage_ret = (\<lambda>i. status),
      now_complete = (\<lambda>i. 23000), reserved_content = (\<lambda>i. 0)\<rparr>"

definition unit_at :: "double \<Rightarrow> double \<Rightarrow> work_unit" where
  "unit_at t d = \<lparr>start_us = t, lba = 8, is_set = False, duration_us = d\<rparr>"

text \<open>Six completed samples with latencies 10 to 60 microseconds, in the order in which
  three workers with two items each hand them over.\<close>

definition six_samples :: "work_unit list" where
  "six_samples = [unit_at 1 30, unit_at 2 10, unit_at 1 60, unit_at 2 20, unit_at 1 50, unit_at 2 40]"

section \<open>Rounding\<close>

text \<open>Rounding to an integer is monotone and leaves integers alone.\<close>

lemma round_even_of_int [simp]: "round_even (of_int k) = k"
  by (simp add: round_even_def)

lemma round_even_bounds: "\<lfloor>y\<rfloor> \<le> round_even y" "round_even y \<le> \<lfloor>y\<rfloor> + 1"
  by (simp_all add: round_even_def Let_def)

lemma round_even_mono:
  assumes "y \<le> z"
  shows "round_even y \<le> round_even z"
proof (cases "\<lfloor>y\<rfloor> = \<lfloor>z\<rfloor>")
  case True
  with assms show ?thesis by (auto simp: round_even_def Let_def)
next
  case False
  with assms have "\<lfloor>y\<rfloor> + 1 \<le> \<lfloor>z\<rfloor>" using floor_mono [of y z] by linarith
  with round_even_bounds(2) [of y] round_even_bounds(1) [of z] show ?thesis by linarith
qed

lemma round_even_less_half:
  assumes "y < of_int k - 1 / 2"
  shows "round_even y \<le> k - 1"
proof -
  have "\<lfloor>y\<rfloor> \<le> k - 1" using assms by linarith
  show ?thesis
  proof (cases "\<lfloor>y\<rfloor> = k - 1")
    case True
    then have "y - of_int \<lfloor>y\<rfloor> < 1 / 2" using assms by simp
    then show ?thesis using True by (simp add: round_even_def Let_def)
  next
    case False
    with \<open>\<lfloor>y\<rfloor> \<le> k - 1\<close> have "\<lfloor>y\<rfloor> + 1 \<le> k - 1" by linarith
    with round_even_bounds(2) [of y] show ?thesis by linarith
  qed
qed

lemma bitlen_pos:
  assumes "0 < n"
  shows "0 < bitlen n"
proof (rule ccontr)
  assume "\<not> 0 < bitlen n"
  then have "nat (bitlen n) = 0" by simp
  with bitlen_bounds [OF assms] have "n < 1" by simp
  with assms show False by simp
qed

lemma expo_bounds:
  assumes "0 < x"
  shows "2 powi expo x \<le> x" and "x < 2 powi (expo x + 1)"
proof -
  have "2 powi expo x \<le> x \<and> x < 2 powi (expo x + 1)"
  proof (cases "1 \<le> x")
    case True
    then have f: "0 < \<lfloor>x\<rfloor>" by linarith
    from bitlen_bounds [OF f] have b: "2 ^ nat (bitlen \<lfloor>x\<rfloor> - 1) \<le> \<lfloor>x\<rfloor>" "\<lfloor>x\<rfloor> < 2 ^ nat (bitlen \<lfloor>x\<rfloor>)"
      by simp_all
    have pos: "0 < bitlen \<lfloor>x\<rfloor>" using f by (rule bitlen_pos)
    have "(2 :: real) ^ nat (bitlen \<lfloor>x\<rfloor> - 1) \<le> of_int \<lfloor>x\<rfloor>"
      using b(1) by (metis of_int_le_iff of_int_numeral of_int_power)
    then have lo: "(2 :: real) ^ nat (bitlen \<lfloor>x\<rfloor> - 1) \<le> x" by linarith
    have "\<lfloor>x\<rfloor> + 1 \<le> 2 ^ nat (bitlen \<lfloor>x\<rfloor>)" using b(2) by simp
    then have "of_int (\<lfloor>x\<rfloor> + 1) \<le> (2 :: real) ^ nat (bitlen \<lfloor>x\<rfloor>)"
      by (metis of_int_le_iff of_int_numeral of_int_power)
    then have hi: "x < (2 :: real) ^ nat (bitlen \<lfloor>x\<rfloor>)" by linarith
    from lo hi pos True show ?thesis
      by (simp add: expo_def power_int_def)
  next
    case False
    define y where "y = 1 / x"
    have y: "1 < y" using assms False by (simp add: y_def)
    define k where "k = bitlen (\<lceil>y\<rceil> - 1)"
    have m: "0 < \<lceil>y\<rceil> - 1" using y by linarith
    from bitlen_bounds [OF m] have b: "2 ^ nat (k - 1) \<le> \<lceil>y\<rceil> - 1" "\<lceil>y\<rceil> - 1 < 2 ^ nat k"
      by (simp_all add: k_def)
    have kpos: "0 < k" unfolding k_def using m by (rule bitlen_pos)
    have "of_int ((2 :: int) ^ nat (k - 1)) < y" using b(1) by linarith
    then have lo: "(2 :: real) ^ nat (k - 1) < y" by simp
    have "\<lceil>y\<rceil> \<le> 2 ^ nat k" using b(2) by simp
    then have "y \<le> of_int ((2 :: int) ^ nat k)" by (simp only: ceiling_le_iff)
    then have hi: "y \<le> (2 :: real) ^ nat k" by simp
    have x: "x = 1 / y" using assms by (simp add: y_def)
    have e: "expo x = - k" using False by (simp add: expo_def k_def y_def)
    have p1: "(2 :: real) powi (- k) = 1 / 2 ^ nat k"
      using kpos by (simp add: power_int_def field_simps)
    have p2: "(2 :: real) powi (- k + 1) = 1 / 2 ^ nat (k - 1)"
      using kpos by (simp add: power_int_def field_simps nat_diff_distrib')
    have "1 / 2 ^ nat k \<le> 1 / y" using hi y by (simp add: frac_le)
    moreover have "1 / y < 1 / 2 ^ nat (k - 1)" using lo y by (simp add: frac_less2)
    ultimately have "2 powi (- k) \<le> x \<and> x < 2 powi (- k + 1)" by (simp only: p1 p2 x)
    then show ?thesis by (simp only: e)
  qed
  then show "2 powi expo x \<le> x" and "x < 2 powi (expo x + 1)" by simp_all
qed

text \<open>The rounding of doubles is monotone, keeps a number within its binade, and leaves
  alone every number that is a mantissa below \<open>2 ^ 53\<close> times a power of 2.\<close>

lemma pow2_less_cancel: "(2 :: real) powi a < 2 powi b \<Longrightarrow> a < b"
  using power_int_increasing [of b a "2 :: real"] by (cases "a < b") auto

lemma pow2_split: "(2 :: real) powi (a + b) = 2 powi a * 2 powi b"
  by (simp add: power_int_add)

lemma expo_unique:
  assumes "0 < x" and "2 powi e \<le> x" and "x < 2 powi (e + 1)"
  shows "expo x = e"
proof -
  have "(2 :: real) powi expo x < 2 powi (e + 1)"
    using expo_bounds(1) [OF assms(1)] assms(3) by linarith
  then have "expo x < e + 1" by (rule pow2_less_cancel)
  moreover have "(2 :: real) powi e < 2 powi (expo x + 1)"
    using expo_bounds(2) [OF assms(1)] assms(2) by linarith
  then have "e < expo x + 1" by (rule pow2_less_cancel)
  ultimately show ?thesis by simp
qed

lemma expo_mono:
  assumes "0 < x" and "x \<le> y"
  shows "expo x \<le> expo y"
proof -
  have "0 < y" using assms by simp
  then have "(2 :: real) powi expo x < 2 powi (expo y + 1)"
    using expo_bounds(1) [OF assms(1)] expo_bounds(2) [of y] assms(2) by linarith
  then have "expo x < expo y + 1" by (rule pow2_less_cancel)
  then show ?thesis by simp
qed

lemma unit_pos: "0 < (2 :: real) powi k"
  by (simp add: zero_less_power_int)

lemma scaled_bounds:
  assumes "0 < x"
  shows "2 ^ 52 \<le> x / 2 powi (expo x - 52)" and "x / 2 powi (expo x - 52) < 2 ^ 53"
proof -
  let ?u = "(2 :: real) powi (expo x - 52)"
  have u: "0 < ?u" by (rule unit_pos)
  have a: "2 powi expo x = 2 ^ 52 * ?u"
    using pow2_split [of 52 "expo x - 52"] by simp
  have b: "2 powi (expo x + 1) = 2 ^ 53 * ?u"
    using pow2_split [of 53 "expo x - 52"] by (simp add: add.commute)
  show "2 ^ 52 \<le> x / ?u"
    using expo_bounds(1) [OF assms] u unfolding a by (simp add: pos_le_divide_eq)
  show "x / ?u < 2 ^ 53"
    using expo_bounds(2) [OF assms] u unfolding b by (simp add: pos_divide_less_eq)
qed

lemma rnd_pos_bounds:
  assumes "0 < x"
  shows "2 powi expo x \<le> rnd_pos x" and "rnd_pos x \<le> 2 powi (expo x + 1)"
proof -
  let ?u = "(2 :: real) powi (expo x - 52)"
  let ?m = "round_even (x / ?u)"
  have u: "0 < ?u" by (rule unit_pos)
  have "round_even (of_int (2 ^ 52)) \<le> ?m"
    using scaled_bounds(1) [OF assms] by (intro round_even_mono) simp
  then have lo: "(2 :: real) ^ 52 \<le> of_int ?m"
    by (simp only: round_even_of_int) (metis of_int_le_iff of_int_numeral of_int_power)
  have "?m \<le> round_even (of_int (2 ^ 53))"
    using scaled_bounds(2) [OF assms] by (intro round_even_mono) simp
  then have hi: "of_int ?m \<le> (2 :: real) ^ 53"
    by (simp only: round_even_of_int) (metis of_int_le_iff of_int_numeral of_int_power)
  have a: "2 powi expo x = 2 ^ 52 * ?u"
    using pow2_split [of 52 "expo x - 52"] by simp
  have b: "2 powi (expo x + 1) = 2 ^ 53 * ?u"
    using pow2_split [of 53 "expo x - 52"] by (simp add: add.commute)
  show "2 powi expo x \<le> rnd_pos x"
    unfolding a rnd_pos_def Let_def using lo u by (simp add: mult_right_mono)
  show "rnd_pos x \<le> 2 powi (expo x + 1)"
    unfolding b rnd_pos_def Let_def using hi u by (simp add: mult_right_mono)
qed

lemma rnd_pos_pos: "0 < x \<Longrightarrow> 0 < rnd_pos x"
  using rnd_pos_bounds(1) [of x] unit_pos [of "expo x"] by linarith

lemma rnd_pos_mono:
  assumes "0 < x" and "x \<le> y"
  shows "rnd_pos x \<le> rnd_pos y"
proof (cases "expo x = expo y")
  case True
  let ?u = "(2 :: real) powi (expo y - 52)"
  have u: "0 < ?u" by (rule unit_pos)
  have "x / ?u \<le> y / ?u" using assms(2) u by (simp add: divide_right_mono)
  then have "round_even (x / ?u) \<le> round_even (y / ?u)" by (rule round_even_mono)
  then have "of_int (round_even (x / ?u)) * ?u \<le> of_int (round_even (y / ?u)) * ?u"
    using u by (simp add: mult_right_mono)
  then show ?thesis by (simp add: rnd_pos_def Let_def True)
next
  case False
  have y: "0 < y" using assms by simp
  from False expo_mono [OF assms] have "expo x + 1 \<le> expo y" by simp
  then have "(2 :: real) powi (expo x + 1) \<le> 2 powi expo y"
    by (intro power_int_increasing) simp_all
  with rnd_pos_bounds(2) [OF assms(1)] rnd_pos_bounds(1) [OF y] show ?thesis by linarith
qed

lemma rnd_mono:
  assumes "x \<le> y"
  shows "rnd x \<le> rnd y"
proof -
  consider "0 < x" | "x = 0" | "x < 0" "y < 0" | "x < 0" "0 \<le> y" by linarith
  then show ?thesis
  proof cases
    case 1
    with assms rnd_pos_mono [of x y] show ?thesis by (simp add: rnd_def)
  next
    case 2
    with assms rnd_pos_pos [of y] show ?thesis by (auto simp: rnd_def less_imp_le)
  next
    case 3
    with assms rnd_pos_mono [of "- y" "- x"] show ?thesis by (simp add: rnd_def)
  next
    case 4
    with rnd_pos_pos [of "- x"] rnd_pos_pos [of y] show ?thesis
      by (auto simp: rnd_def less_imp_le)
  qed
qed

lemma rnd_pos_exact:
  assumes "0 < m" and "m < 2 ^ 53"
  shows "rnd_pos (of_int m * 2 powi j) = of_int m * 2 powi j"
proof -
  define x where "x = of_int m * (2 :: real) powi j"
  define e where "e = expo x"
  define u where "u = (2 :: real) powi (e - 52)"
  have x: "0 < x" using assms(1) unit_pos [of j] by (simp add: x_def)
  have u: "0 < u" unfolding u_def by (rule unit_pos)
  have "of_int m < (2 :: real) ^ 53"
    using assms(2) by (metis of_int_less_iff of_int_numeral of_int_power)
  then have "x < 2 ^ 53 * 2 powi j" using unit_pos [of j] by (simp add: x_def)
  also have "\<dots> = 2 powi (53 + j)" using pow2_split [of 53 j] by simp
  finally have "(2 :: real) powi e < 2 powi (53 + j)"
    using expo_bounds(1) [OF x] unfolding e_def by linarith
  then have "e < 53 + j" by (rule pow2_less_cancel)
  then have "0 \<le> j - (e - 52)" by linarith
  then obtain d :: nat where d: "j - (e - 52) = int d"
    using zero_le_imp_eq_int by blast
  have "j = int d + (e - 52)" using d by linarith
  then have "(2 :: real) powi j = 2 powi (int d + (e - 52))" by (rule arg_cong)
  also have "\<dots> = 2 ^ d * u"
    using pow2_split [of "int d" "e - 52"] by (simp only: power_int_of_nat u_def)
  finally have j: "(2 :: real) powi j = 2 ^ d * u" .
  have xu: "x = of_int (m * 2 ^ d) * u" by (simp add: x_def j)
  then have "x / u = of_int (m * 2 ^ d)" using u by simp
  then have "round_even (x / u) = m * 2 ^ d"
    by (simp only: round_even_of_int)
  then have "rnd_pos x = of_int (m * 2 ^ d) * u"
    by (simp add: rnd_pos_def Let_def u_def e_def)
  then have "rnd_pos x = x" using xu by simp
  then show ?thesis unfolding x_def .
qed

lemma rnd_0 [simp]: "rnd 0 = 0"
  by (simp add: rnd_def)

lemma rnd_minus: "rnd (- x) = - rnd x"
  by (simp add: rnd_def)

lemma rnd_exact:
  assumes "\<bar>m\<bar> < 2 ^ 53"
  shows "rnd (of_int m * 2 powi j) = of_int m * 2 powi j"
proof -
  consider "m = 0" | "0 < m" | "m < 0" by linarith
  then show ?thesis
  proof cases
    case 1
    then show ?thesis by simp
  next
    case 2
    then have "0 < of_int m * (2 :: real) powi j" using unit_pos [of j] by simp
    with 2 assms rnd_pos_exact [of m j] show ?thesis by (simp add: rnd_def)
  next
    case 3
    then have m: "0 < - m" "- m < 2 ^ 53" using assms by simp_all
    have neg: "of_int m * (2 :: real) powi j < 0"
      using 3 unit_pos [of j] by (simp add: mult_neg_pos)
    have "rnd_pos (of_int (- m) * 2 powi j) = of_int (- m) * 2 powi j"
      using m by (rule rnd_pos_exact)
    with neg show ?thesis by (simp add: rnd_def)
  qed
qed

lemma rnd_of_int:
  assumes "\<bar>m\<bar> < 2 ^ 53"
  shows "rnd (of_int m) = of_int m"
  using rnd_exact [OF assms, of 0] by simp

lemma rnd_of_nat:
  assumes "n < 2 ^ 53"
  shows "rnd (real n) = real n"
  using rnd_of_int [of "int n"] assms by (simp add: nat_less_numeral_power_cancel_iff)

lemma rnd_numeral [simp]:
  "(numeral k :: int) < 2 ^ 53 \<Longrightarrow> rnd (numeral k) = numeral k"
  using rnd_of_int [of "numeral k"] by simp

lemma rnd_neg_numeral [simp]:
  "(numeral k :: int) < 2 ^ 53 \<Longrightarrow> rnd (- numeral k) = - numeral k"
  using rnd_of_int [of "- numeral k"] by simp

lemma rnd_1 [simp]: "rnd 1 = 1"
  using rnd_of_int [of 1] by simp

text \<open>The result of a rounding is a positive mantissa below \<open>2 ^ 53\<close> times a power of 2.\<close>

lemma rnd_pos_mantissa:
  assumes "0 < x"
  shows "\<exists>m j. 0 < m \<and> m < 2 ^ 53 \<and> rnd_pos x = of_int m * 2 powi j"
proof -
  define u where "u = (2 :: real) powi (expo x - 52)"
  define m where "m = round_even (x / u)"
  have u: "0 < u" unfolding u_def by (rule unit_pos)
  have r: "rnd_pos x = of_int m * u" by (simp add: rnd_pos_def Let_def u_def m_def)
  have "round_even (of_int (2 ^ 52)) \<le> m"
    unfolding m_def u_def using scaled_bounds(1) [OF assms] by (intro round_even_mono) simp
  then have lo: "2 ^ 52 \<le> m" by (simp only: round_even_of_int)
  have "m \<le> round_even (of_int (2 ^ 53))"
    unfolding m_def u_def using scaled_bounds(2) [OF assms] by (intro round_even_mono) simp
  then have hi: "m \<le> 2 ^ 53" by (simp only: round_even_of_int)
  show ?thesis
  proof (cases "m = 2 ^ 53")
    case True
    have "rnd_pos x = of_int 1 * 2 powi (expo x + 1)"
      using pow2_split [of 53 "expo x - 52"] by (simp add: r True u_def add.commute)
    then show ?thesis by (intro exI [of _ 1] exI [of _ "expo x + 1"]) simp
  next
    case False
    with hi lo have "0 < m" "m < 2 ^ 53" by simp_all
    with r show ?thesis unfolding u_def by blast
  qed
qed

lemma rnd_idem [simp]: "rnd (rnd x) = rnd x"
proof -
  have pos: "rnd (rnd_pos y) = rnd_pos y" if "0 < y" for y
  proof -
    from rnd_pos_mantissa [OF that] obtain m j
      where "0 < m" "m < 2 ^ 53" "rnd_pos y = of_int m * 2 powi j" by blast
    then show ?thesis using rnd_exact [of m j] by simp
  qed
  consider "x = 0" | "0 < x" | "x < 0" by linarith
  then show ?thesis
  proof cases
    case 1
    then show ?thesis by simp
  next
    case 2
    then show ?thesis using pos [of x] by (simp add: rnd_def)
  next
    case 3
    then have "rnd x = - rnd_pos (- x)" by (simp add: rnd_def)
    then show ?thesis using pos [of "- x"] 3 by (simp add: rnd_minus)
  qed
qed

lemma is_double_rnd [simp]: "is_double (rnd x)"
  by (simp add: is_double_def)

lemma rnd_nonneg: "0 \<le> x \<Longrightarrow> 0 \<le> rnd x"
  using rnd_mono [of 0 x] by simp

lemma rnd_le_double: "x \<le> y \<Longrightarrow> is_double y \<Longrightarrow> rnd x \<le> y"
  using rnd_mono [of x y] by (simp add: is_double_def)

lemma rnd_ge_double: "y \<le> x \<Longrightarrow> is_double y \<Longrightarrow> y \<le> rnd x"
  using rnd_mono [of y x] by (simp add: is_double_def)

text \<open>A positive double times a double below 1 rounds to a double below the first
  factor: the product lies at least half a unit in the last place below it.\<close>

lemma double_mantissa:
  assumes "is_double x" and "0 < x"
  shows "\<exists>m. 2 ^ 52 \<le> m \<and> m < 2 ^ 53 \<and> x = of_int m * 2 powi (expo x - 52)"
proof -
  define u where "u = (2 :: real) powi (expo x - 52)"
  define m where "m = round_even (x / u)"
  have u: "0 < u" unfolding u_def by (rule unit_pos)
  have "rnd_pos x = x" using assms by (simp add: is_double_def rnd_def)
  then have x: "x = of_int m * u" by (simp add: rnd_pos_def Let_def u_def m_def)
  then have xu: "x / u = of_int m" using u by simp
  have "(2 :: real) ^ 52 \<le> of_int m" "of_int m < (2 :: real) ^ 53"
    using scaled_bounds [OF assms(2)] xu by (simp_all add: u_def)
  then have "2 ^ 52 \<le> m" "m < 2 ^ 53"
    by (metis of_int_le_iff of_int_numeral of_int_power,
        metis of_int_less_iff of_int_numeral of_int_power)
  with x show ?thesis unfolding u_def by blast
qed

lemma rnd_scaled_less:
  assumes dx: "is_double x" and x: "0 < x" and y: "y \<le> x * (1 - 1 / 2 ^ 53)"
  shows "rnd y < x"
proof (cases "0 < y")
  case False
  then have "rnd y \<le> rnd 0" by (intro rnd_mono) simp
  with x show ?thesis by simp
next
  case True
  define e where "e = expo x"
  define u where "u = (2 :: real) powi (e - 52)"
  have u: "0 < u" unfolding u_def by (rule unit_pos)
  from double_mantissa [OF dx x] obtain m
    where m: "2 ^ 52 \<le> m" "m < 2 ^ 53" and xm: "x = of_int m * u"
    unfolding u_def e_def by blast
  have mr: "(2 :: real) ^ 52 \<le> of_int m" using m(1)
    by (metis of_int_le_iff of_int_numeral of_int_power)
  have "x * (1 - 1 / 2 ^ 53) = x - of_int m * u / 2 ^ 53" by (simp add: xm algebra_simps)
  also have "\<dots> \<le> x - u / 2"
  proof -
    have "u / 2 = 2 ^ 52 * u / 2 ^ 53" by simp
    also have "\<dots> \<le> of_int m * u / 2 ^ 53"
      using mr u by (intro divide_right_mono mult_right_mono) simp_all
    finally show ?thesis by simp
  qed
  finally have yb: "y \<le> x - u / 2" using y by simp
  show ?thesis
  proof (cases "m = 2 ^ 52")
    case True
    have "x - u / 2 = of_int (2 ^ 53 - 1) * 2 powi (e - 53)"
    proof -
      have "u = 2 * 2 powi (e - 53)" using pow2_split [of 1 "e - 53"] by (simp add: u_def)
      then show ?thesis by (simp add: xm True algebra_simps)
    qed
    moreover have "rnd (of_int (2 ^ 53 - 1) * 2 powi (e - 53)) = of_int (2 ^ 53 - 1) * 2 powi (e - 53)"
      by (rule rnd_exact) simp
    ultimately have "is_double (x - u / 2)" by (simp add: is_double_def)
    with yb have "rnd y \<le> x - u / 2" by (rule rnd_le_double)
    with u show ?thesis by simp
  next
    case False
    with m have m1: "2 ^ 52 \<le> m - 1" "0 < m - 1" "m - 1 < 2 ^ 53" by simp_all
    define x' where "x' = of_int (m - 1) * u"
    have dx': "is_double x'"
      unfolding x'_def u_def is_double_def using m1 by (intro rnd_exact) simp
    have x'x: "x' < x" using u by (simp add: x'_def xm algebra_simps)
    have strict: "y < x - u / 2"
    proof -
      have "(2 :: real) ^ 52 < of_int m" using False mr
        by (metis less_eq_real_def of_int_eq_iff of_int_numeral of_int_power)
      then have "2 ^ 52 * u / 2 ^ 53 < of_int m * u / 2 ^ 53"
        using u by (intro divide_strict_right_mono mult_strict_right_mono) simp_all
      then have "x - of_int m * u / 2 ^ 53 < x - u / 2" by simp
      moreover have "y \<le> x - of_int m * u / 2 ^ 53" using y by (simp add: xm algebra_simps)
      ultimately show ?thesis by linarith
    qed
    show ?thesis
    proof (cases "y \<le> x'")
      case True
      then have "rnd y \<le> x'" using dx' by (rule rnd_le_double)
      with x'x show ?thesis by simp
    next
      case False
      then have x'y: "x' < y" by simp
      have lo: "2 powi e \<le> x'"
      proof -
        have "2 powi e = 2 ^ 52 * u" using pow2_split [of 52 "e - 52"] by (simp add: u_def)
        moreover have "(2 :: real) ^ 52 \<le> of_int (m - 1)" using m1(1)
          by (metis of_int_le_iff of_int_numeral of_int_power)
        ultimately show ?thesis using u by (simp add: x'_def mult_right_mono)
      qed
      have hi: "x < 2 powi (e + 1)" unfolding e_def using x by (rule expo_bounds(2))
      have ey: "expo y = e"
        using True lo x'y strict hi u by (intro expo_unique) linarith+
      have "y / u < of_int m - 1 / 2"
        using strict u by (simp add: xm field_simps)
      then have "round_even (y / u) \<le> m - 1" by (rule round_even_less_half)
      then have "of_int (round_even (y / u)) * u \<le> of_int (m - 1) * u"
        using u by (intro mult_right_mono) simp_all
      then have "rnd y \<le> x'"
        using True by (simp add: rnd_def rnd_pos_def Let_def ey u_def x'_def)
      with x'x show ?thesis by simp
    qed
  qed
qed

lemma double_below_one:
  assumes "is_double p" and "p < 1"
  shows "p \<le> 1 - 1 / 2 ^ 53"
proof (cases "1 / 2 \<le> p")
  case False
  then show ?thesis by simp
next
  case True
  then have pos: "0 < p" by simp
  have "expo p = - 1"
    using pos True assms(2) by (intro expo_unique) (simp_all add: power_int_def)
  with double_mantissa [OF assms(1) pos] obtain m
    where m: "m < 2 ^ 53" and p: "p = of_int m * 2 powi (- 53)" by auto
  have "of_int m \<le> (2 :: real) ^ 53 - 1"
  proof -
    have "m \<le> 2 ^ 53 - 1" using m by simp
    then have "(of_int m :: real) \<le> of_int (2 ^ 53 - 1)" by (simp only: of_int_le_iff)
    then show ?thesis by simp
  qed
  then have "of_int m * (2 :: real) powi (- 53) \<le> (2 ^ 53 - 1) * 2 powi (- 53)"
    using unit_pos [of "- 53"] by (intro mult_right_mono) simp_all
  then show ?thesis by (simp add: p power_int_def field_simps)
qed

lemma rnd_times_less:
  assumes "is_double x" and "0 < x" and "is_double p" and "p < 1"
  shows "rnd (x * p) < x"
proof -
  have "x * p \<le> x * (1 - 1 / 2 ^ 53)"
    using double_below_one [OF assms(3,4)] assms(2) by (intro mult_left_mono) simp_all
  with assms(1,2) show ?thesis by (rule rnd_scaled_less)
qed

section \<open>The generator loop\<close>

text \<open>
  A property \<open>I\<close> of the items emitted so far, the running offset and the state of the
  arrival sampler that holds at the entry of the loop and is kept by every iteration
  holds at its exit, where the running offset is no longer below \<open>last_us\<close>.
\<close>

lemma GenerateWork_loop_invariant:
  fixes a :: "('sa, double) sampler" and s :: "('ss, size_t) sampler"
  assumes run: "GenerateWork_loop pct_set a s sa ss w cur_us last_us = Some y"
    and init: "I w cur_us sa"
    and step: "\<And>v c st r b. I v c st \<Longrightarrow> c < last_us \<Longrightarrow>
        I (v @ [\<lparr>start_us = dadd c (fst (a st)), lba = r AND NOT 7, is_set = b,
                 duration_us = 0\<rparr>])
          (dadd c (fst (a st))) (snd (a st))"
  shows "\<exists>c st. I y c st \<and> \<not> c < last_us"
proof -
  define Step where "Step a' l \<longleftrightarrow> (\<forall>v c st r b. I v c st \<longrightarrow> c < l \<longrightarrow>
        I (v @ [\<lparr>start_us = dadd c (fst (a' st)), lba = r AND NOT 7, is_set = b,
                 duration_us = 0\<rparr>])
          (dadd c (fst (a' st))) (snd (a' st)))" for a' :: "('sa, double) sampler" and l :: double
  have "I w cur_us sa \<longrightarrow> Step a last_us \<longrightarrow> (\<exists>c st. I y c st \<and> \<not> c < last_us)"
  proof (rule GenerateWork_loop.raw_induct
      [where P = "\<lambda>p a s sa ss w cur l y. I w cur sa \<longrightarrow> Step a l \<longrightarrow> (\<exists>c st. I y c st \<and> \<not> c < l)",
        OF _ run])
    fix f :: "size_t \<Rightarrow> ('sa, double) sampler \<Rightarrow> ('ss, size_t) sampler \<Rightarrow> 'sa \<Rightarrow> 'ss \<Rightarrow>
       work_unit list \<Rightarrow> double \<Rightarrow> double \<Rightarrow> work_unit list option"
    fix p and a :: "('sa, double) sampler" and s :: "('ss, size_t) sampler"
      and sa ss w cur l y
    assume ih: "\<And>p a s sa ss w cur l y.
       f p a s sa ss w cur l = Some y \<Longrightarrow>
       I w cur sa \<longrightarrow> Step a l \<longrightarrow> (\<exists>c st. I y c st \<and> \<not> c < l)"
    assume body: "(if cur < l then
        (case a sa of (gap, sa') \<Rightarrow>
         let cur_us' = dadd cur gap in
         case s ss of (r1, ss1) \<Rightarrow>
         let set = (r1 mod 100 < p) in
         case s ss1 of (r2, ss2) \<Rightarrow>
         f p a s sa' ss2
           (w @ [\<lparr>start_us = cur_us', lba = r2 AND NOT 7, is_set = set, duration_us = 0\<rparr>])
           cur_us' l)
      else Some w) = Some y"
    show "I w cur sa \<longrightarrow> Step a l \<longrightarrow> (\<exists>c st. I y c st \<and> \<not> c < l)"
    proof (cases "cur < l")
      case False
      with body show ?thesis by auto
    next
      case True
      obtain gap sa' where A: "a sa = (gap, sa')" by (cases "a sa")
      obtain r1 ss1 where S1: "s ss = (r1, ss1)" by (cases "s ss")
      obtain r2 ss2 where S2: "s ss1 = (r2, ss2)" by (cases "s ss1")
      let ?w = "w @ [\<lparr>start_us = dadd cur gap, lba = r2 AND NOT 7, is_set = (r1 mod 100 < p), duration_us = 0\<rparr>]"
      from body True A S1 S2
      have rec: "f p a s sa' ss2 ?w (dadd cur gap) l = Some y"
        by (simp add: Let_def)
      have g: "gap = fst (a sa)" using A by simp
      show ?thesis
      proof (intro impI)
        assume i: "I w cur sa" and st: "Step a l"
        have g': "sa' = snd (a sa)" using A by simp
        from st i True have iw: "I ?w (dadd cur gap) sa'" unfolding g g' Step_def by blast
        from ih[OF rec] iw st show "\<exists>c st. I y c st \<and> \<not> c < l" by simp
      qed
    qed
  qed
  moreover have "Step a last_us" unfolding Step_def using step by blast
  ultimately show ?thesis using init by simp
qed



section \<open>Properties of generated schedules\<close>

text \<open>Two runs of the generator, from offset 0 to the horizon 10: with a constant gap of
  15, and with a constant gap of 3.\<close>

lemma run_overshoot:
  "GenerateWork 50 (fixed_gap 15) stepping_blocks 0 0 0 10 =
     Some [\<lparr>start_us = 15, lba = 16, is_set = True, duration_us = 0\<rparr>]"
  by (simp add: GenerateWork_def GenerateWork_loop.simps fixed_gap_def stepping_blocks_def
      dadd_def)

lemma run_four:
  "GenerateWork 50 (fixed_gap 3) stepping_blocks 0 0 0 10 =
     Some [\<lparr>start_us = 3, lba = 16, is_set = True, duration_us = 0\<rparr>,
           \<lparr>start_us = 6, lba = 40, is_set = True, duration_us = 0\<rparr>,
           \<lparr>start_us = 9, lba = 72, is_set = False, duration_us = 0\<rparr>,
           \<lparr>start_us = 12, lba = 96, is_set = False, duration_us = 0\<rparr>]"
  by (simp add: GenerateWork_def GenerateWork_loop.simps fixed_gap_def stepping_blocks_def
      dadd_def)

lemma and_not_7: "(r AND NOT 7) AND 7 = (0 :: 64 word)"
  by (simp add: and.assoc)

lemma aligned_dvd: "8 dvd unat x" if "x AND 7 = 0" for x :: "64 word"
  using and_mask_dvd_nat [of 3 x] that by (simp add: mask_eq_exp_minus_1)

text \<open>
  C7. Every work item that GenerateWork produces has a block address that is a multiple
  of 8: its low three bits are zero, whatever the address sampler draws.
\<close>

theorem GenerateWork_lba_aligned:
  fixes a :: "('sa, double) sampler" and s :: "('ss, size_t) sampler"
  assumes "GenerateWork pct_set a s sa ss cur_us last_us = Some ws"
  shows "\<forall>u \<in> set ws. lba u AND 7 = 0 \<and> 8 dvd unat (lba u)"
proof -
  have run: "GenerateWork_loop pct_set a s sa ss [] cur_us last_us = Some ws"
    using assms by (simp add: GenerateWork_def)
  have "\<exists>c (st :: 'sa). (\<forall>u \<in> set ws. lba u AND 7 = 0) \<and> \<not> c < last_us"
  proof (rule GenerateWork_loop_invariant [OF run,
        where I = "\<lambda>v c st. \<forall>u \<in> set v. lba u AND 7 = 0"])
    show "\<forall>u \<in> set []. lba u AND 7 = 0" by simp
  next
    fix v :: "work_unit list" and c st r b
    assume "\<forall>u \<in> set v. lba u AND 7 = 0"
    then show "\<forall>u \<in> set (v @ [\<lparr>start_us = dadd c (fst (a st)), lba = r AND NOT 7,
                 is_set = b, duration_us = 0\<rparr>]). lba u AND 7 = 0"
      using and_not_7 [of r] by simp
  qed
  then show ?thesis using aligned_dvd by blast
qed

theorem GenerateWork_lba_aligned_witness:
  "GenerateWork 50 (fixed_gap 3) stepping_blocks 0 0 0 10 \<noteq> None \<and>
   map (\<lambda>u. lba u AND 7) (the (GenerateWork 50 (fixed_gap 3) stepping_blocks 0 0 0 10)) = [0, 0, 0, 0] \<and>
   map (\<lambda>u. unat (lba u) mod 8) (the (GenerateWork 50 (fixed_gap 3) stepping_blocks 0 0 0 10)) = [0, 0, 0, 0]"
  using GenerateWork_lba_aligned [OF run_four] by (simp add: run_four)

text \<open>
  C6. When every draw of the arrival sampler is non-negative, the offsets \<open>start_us\<close> of
  a generated schedule are non-decreasing in generation order.
\<close>

theorem GenerateWork_offsets_sorted:
  fixes a :: "('sa, double) sampler" and s :: "('ss, size_t) sampler"
  assumes "GenerateWork pct_set a s sa ss cur_us last_us = Some ws"
      and "\<forall>st. 0 \<le> fst (a st)"
  shows "sorted (map start_us ws)"
proof -
  have run: "GenerateWork_loop pct_set a s sa ss [] cur_us last_us = Some ws"
    using assms(1) by (simp add: GenerateWork_def)
  define I where "I v c \<longleftrightarrow> sorted (map start_us v) \<and> (v \<noteq> [] \<longrightarrow> is_double c) \<and>
      (\<forall>u \<in> set v. start_us u \<le> c)" for v :: "work_unit list" and c :: double
  have "\<exists>c (st :: 'sa). I ws c \<and> \<not> c < last_us"
  proof (rule GenerateWork_loop_invariant [OF run, where I = "\<lambda>v c st. I v c"])
    show "I [] cur_us" by (simp add: I_def)
  next
    fix v :: "work_unit list" and c st r b
    assume inv: "I v c"
    have g: "0 \<le> fst (a st)" using assms(2) by simp
    have up: "start_us u \<le> dadd c (fst (a st))" if "u \<in> set v" for u
    proof -
      from that inv have "is_double c" and "start_us u \<le> c" by (auto simp: I_def)
      moreover from g \<open>is_double c\<close> have "c \<le> rnd (c + fst (a st))"
        by (intro rnd_ge_double) simp_all
      ultimately show ?thesis by (simp add: dadd_def)
    qed
    with inv show "I (v @ [\<lparr>start_us = dadd c (fst (a st)), lba = r AND NOT 7,
                 is_set = b, duration_us = 0\<rparr>]) (dadd c (fst (a st)))"
      by (auto simp: I_def sorted_append dadd_def)
  qed
  then show ?thesis by (auto simp: I_def)
qed

theorem GenerateWork_offsets_sorted_witness:
  "GenerateWork 50 (fixed_gap 3) stepping_blocks 0 0 0 10 \<noteq> None \<and>
   sorted (map start_us (the (GenerateWork 50 (fixed_gap 3) stepping_blocks 0 0 0 10))) \<and>
   map start_us (the (GenerateWork 50 (fixed_gap 3) stepping_blocks 0 0 0 10)) = [3, 6, 9, 12]"
proof -
  have "\<forall>st. 0 \<le> fst (fixed_gap 3 st)" by (simp add: fixed_gap_def)
  from GenerateWork_offsets_sorted [OF run_four this] show ?thesis
    by (simp add: run_four)
qed

text \<open>
  C2, as stated: the last item of a generated schedule has an offset that does not exceed
  the horizon \<open>last_us\<close>. The loop tests the running offset before it adds the gap, so
  the item that ends the loop lies beyond the horizon: with a gap of 15 and a horizon of
  10 the only item has offset 15.
\<close>

theorem GenerateWork_last_offset_counterexample:
  "GenerateWork 50 (fixed_gap 15) stepping_blocks 0 0 0 10 =
     Some [\<lparr>start_us = 15, lba = 16, is_set = True, duration_us = 0\<rparr>] \<and>
   \<not> start_us (last [\<lparr>start_us = 15, lba = 16, is_set = True, duration_us = 0\<rparr>]) \<le> 10"
  by (simp add: run_overshoot)

text \<open>
  C2, amended. In a generated schedule the offset of each item is the sum, as doubles,
  of the offset of the item before it (of the start offset, for the first item) and the
  gap that the arrival sampler draws for this item: the \<open>k\<close>-th draw from its initial
  state. Every item but the last has an offset strictly below the horizon. The last
  item's offset is at or beyond the horizon, and it is at most the sum, as doubles, of
  the horizon and the gap drawn for the last item. The schedule is empty exactly when the
  start offset is not below the horizon.
\<close>

theorem GenerateWork_horizon:
  fixes a :: "('sa, double) sampler" and s :: "('ss, size_t) sampler"
  assumes "GenerateWork pct_set a s sa ss cur_us last_us = Some ws"
  shows "(\<forall>k < length ws. start_us (ws ! k) =
            dadd (if k = 0 then cur_us else start_us (ws ! (k - 1)))
                 (fst (a (((snd \<circ> a) ^^ k) sa)))) \<and>
         (\<forall>i. Suc i < length ws \<longrightarrow> start_us (ws ! i) < last_us) \<and>
         (ws \<noteq> [] \<longrightarrow> last_us \<le> start_us (last ws)) \<and>
         (ws \<noteq> [] \<longrightarrow> start_us (last ws) \<le>
            dadd last_us (fst (a (((snd \<circ> a) ^^ (length ws - 1)) sa)))) \<and>
         (ws = [] \<longleftrightarrow> \<not> cur_us < last_us)"
proof -
  have run: "GenerateWork_loop pct_set a s sa ss [] cur_us last_us = Some ws"
    using assms by (simp add: GenerateWork_def)
  define gap where "gap k = fst (a (((snd \<circ> a) ^^ k) sa))" for k
  define prev where "prev v k = (if k = 0 then cur_us else start_us (v ! (k - 1)))"
    for v :: "work_unit list" and k :: nat
  define I where "I v c st \<longleftrightarrow>
       st = ((snd \<circ> a) ^^ length v) sa \<and>
       (v = [] \<longrightarrow> c = cur_us) \<and>
       (v \<noteq> [] \<longrightarrow> start_us (last v) = c \<and> cur_us < last_us) \<and>
       (\<forall>k < length v. start_us (v ! k) = dadd (prev v k) (gap k)) \<and>
       (\<forall>i. Suc i < length v \<longrightarrow> start_us (v ! i) < last_us)"
    for v :: "work_unit list" and c :: double and st :: 'sa
  have "\<exists>c st. I ws c st \<and> \<not> c < last_us"
  proof (rule GenerateWork_loop_invariant [OF run, where I = I])
    show "I [] cur_us sa" by (simp add: I_def)
  next
    fix v :: "work_unit list" and c st r b
    assume inv: "I v c st" and below: "c < last_us"
    let ?u = "\<lparr>start_us = dadd c (fst (a st)), lba = r AND NOT 7, is_set = b, duration_us = 0\<rparr>"
    let ?v = "v @ [?u]"
    have st: "st = ((snd \<circ> a) ^^ length v) sa" using inv by (simp add: I_def)
    have c: "c = prev ?v (length v)"
    proof (cases "v = []")
      case True
      with inv show ?thesis by (simp add: I_def prev_def)
    next
      case False
      then have "?v ! (length v - 1) = last v" by (simp add: nth_append last_conv_nth)
      with inv False show ?thesis by (simp add: I_def prev_def)
    qed
    have eqs: "start_us (?v ! k) = dadd (prev ?v k) (gap k)" if "k < length ?v" for k
    proof (cases "k < length v")
      case True
      then have "k - 1 < length v" by simp
      then have "prev ?v k = prev v k" by (simp add: prev_def nth_append)
      with True inv show ?thesis by (simp add: I_def nth_append)
    next
      case False
      with that have k: "k = length v" by simp
      show ?thesis unfolding k using c by (simp add: gap_def st)
    qed
    have below_all: "start_us (?v ! i) < last_us" if "Suc i < length ?v" for i
    proof (cases "Suc i < length v")
      case True
      with inv have "start_us (v ! i) < last_us" unfolding I_def by blast
      with True show ?thesis by (simp add: nth_append)
    next
      case False
      with that have i: "i = length v - 1" and ne: "v \<noteq> []" by auto
      then have "?v ! i = last v" by (simp add: nth_append last_conv_nth)
      with inv ne below show ?thesis by (simp add: I_def)
    qed
    have first: "cur_us < last_us" using inv below by (cases "v = []") (auto simp: I_def)
    from eqs below_all first show "I ?v (dadd c (fst (a st))) (snd (a st))"
      unfolding I_def [of ?v] by (simp add: st)
  qed
  then obtain c st where inv: "I ws c st" and stop: "\<not> c < last_us" by blast
  have eqs: "\<forall>k < length ws. start_us (ws ! k) = dadd (prev ws k) (gap k)"
    and below_all: "\<forall>i. Suc i < length ws \<longrightarrow> start_us (ws ! i) < last_us"
    using inv unfolding I_def by blast+
  have last_ge: "ws \<noteq> [] \<longrightarrow> last_us \<le> start_us (last ws)"
    using inv stop by (auto simp: I_def)
  have empty: "ws = [] \<longleftrightarrow> \<not> cur_us < last_us"
    using inv stop by (cases "ws = []") (auto simp: I_def)
  have over: "start_us (last ws) \<le> dadd last_us (gap (length ws - 1))" if ne: "ws \<noteq> []"
  proof -
    let ?k = "length ws - 1"
    have k: "?k < length ws" using ne by simp
    have p: "prev ws ?k < last_us"
    proof (cases "?k = 0")
      case True
      with empty ne show ?thesis by (simp add: prev_def)
    next
      case False
      then have "Suc (?k - 1) < length ws" using k by simp
      with below_all False show ?thesis by (simp add: prev_def)
    qed
    have "start_us (last ws) = dadd (prev ws ?k) (gap ?k)"
      using eqs k ne by (simp add: last_conv_nth)
    also have "\<dots> \<le> dadd last_us (gap ?k)"
      unfolding dadd_def using p by (intro rnd_mono) simp
    finally show ?thesis .
  qed
  from eqs below_all last_ge over empty show ?thesis
    unfolding prev_def gap_def by blast
qed

text \<open>The amended statement on the run with gap 3: the last offset, 12, is the offset 9,
  which lies below the horizon 10, plus the fourth draw, 3; it lies between 10 and
  10 + 3.\<close>

theorem GenerateWork_horizon_witness:
  "GenerateWork 50 (fixed_gap 3) stepping_blocks 0 0 0 10 =
     Some [\<lparr>start_us = 3, lba = 16, is_set = True, duration_us = 0\<rparr>,
           \<lparr>start_us = 6, lba = 40, is_set = True, duration_us = 0\<rparr>,
           \<lparr>start_us = 9, lba = 72, is_set = False, duration_us = 0\<rparr>,
           \<lparr>start_us = 12, lba = 96, is_set = False, duration_us = 0\<rparr>] \<and>
   (12 :: real) = dadd 9 (fst (fixed_gap 3 (((snd \<circ> fixed_gap 3) ^^ 3) 0))) \<and>
   (9 :: real) < 10 \<and> (10 :: real) \<le> 12 \<and>
   (12 :: real) \<le> dadd 10 (fst (fixed_gap 3 (((snd \<circ> fixed_gap 3) ^^ 3) 0)))"
proof -
  have run: "GenerateWork 50 (fixed_gap 3) stepping_blocks 0 0 0 10 =
     Some [\<lparr>start_us = 3, lba = 16, is_set = True, duration_us = 0\<rparr>,
           \<lparr>start_us = 6, lba = 40, is_set = True, duration_us = 0\<rparr>,
           \<lparr>start_us = 9, lba = 72, is_set = False, duration_us = 0\<rparr>,
           \<lparr>start_us = 12, lba = 96, is_set = False, duration_us = 0\<rparr>]"
    by (simp add: GenerateWork_def GenerateWork_loop.simps fixed_gap_def stepping_blocks_def
        dadd_def)
  from GenerateWork_horizon [OF run] run show ?thesis
    by (simp add: fixed_gap_def dadd_def eval_nat_numeral)
qed


section \<open>Properties of the statistics\<close>

lemma is_double_dyadic:
  assumes "\<bar>m\<bar> < 2 ^ 53"
  shows "is_double (of_int m / 2 ^ k)"
proof -
  have "of_int m / 2 ^ k = of_int m * (2 :: real) powi (- int k)"
    by (simp add: power_int_def field_simps)
  then show ?thesis using rnd_exact [OF assms, of "- int k"] by (simp add: is_double_def)
qed

lemma is_double_of_nat: "n < 2 ^ 53 \<Longrightarrow> is_double (real n)"
  by (simp add: is_double_def rnd_of_nat)

lemma double_of_nat_pos:
  assumes "0 < n"
  shows "0 < double_of_nat n" and "is_double (double_of_nat n)"
proof -
  have "rnd 1 \<le> rnd (real n)" using assms by (intro rnd_mono) simp
  then show "0 < double_of_nat n" by (simp add: double_of_nat_def)
  show "is_double (double_of_nat n)" by (simp add: double_of_nat_def)
qed

lemma double_less_double_of_nat:
  assumes "is_double z" and "z < double_of_nat n"
  shows "z < real n"
proof (rule ccontr)
  assume "\<not> z < real n"
  then have "rnd (real n) \<le> z" using assms(1) by (intro rnd_le_double) simp_all
  with assms(2) show False by (simp add: double_of_nat_def)
qed

text \<open>A double rank fraction in \<open>[0, 1)\<close> selects an element of a non-empty vector, and
  a larger fraction selects a rank that is not smaller.\<close>

lemma rank_in_range:
  assumes "0 < n" and "is_double p" and "0 \<le> p" and "p < 1"
  shows "to_size_t (dmul (double_of_nat n) p) < n"
proof -
  let ?c = "double_of_nat n"
  let ?z = "dmul ?c p"
  note c = double_of_nat_pos [OF assms(1)]
  have "?z < ?c" unfolding dmul_def using c assms(2,4) by (intro rnd_times_less)
  moreover have "is_double ?z" by (simp add: dmul_def)
  ultimately have "?z < real n" by (rule double_less_double_of_nat [rotated])
  moreover have "0 \<le> ?z" unfolding dmul_def using c(1) assms(3) by (intro rnd_nonneg) simp
  ultimately show ?thesis unfolding to_size_t_def by linarith
qed

lemma rank_mono:
  assumes "0 \<le> p1" and "p1 \<le> p2"
  shows "to_size_t (dmul (double_of_nat n) p1) \<le> to_size_t (dmul (double_of_nat n) p2)"
proof -
  have "0 \<le> double_of_nat n" unfolding double_of_nat_def by (intro rnd_nonneg) simp
  then have "double_of_nat n * p1 \<le> double_of_nat n * p2"
    using assms by (simp add: mult_left_mono)
  then have "dmul (double_of_nat n) p1 \<le> dmul (double_of_nat n) p2"
    unfolding dmul_def by (rule rnd_mono)
  then have "\<lfloor>dmul (double_of_nat n) p1\<rfloor> \<le> \<lfloor>dmul (double_of_nat n) p2\<rfloor>" by (rule floor_mono)
  then show ?thesis by (simp add: to_size_t_def)
qed

lemma percentile_at_in_range:
  assumes "ws \<noteq> []" and "is_double p" and "0 \<le> p" and "p < 1"
  shows "percentile_at ws p =
    Inr (duration_us (ws ! to_size_t (dmul (double_of_nat (length ws)) p)))"
  using rank_in_range [of "length ws" p] assms
  by (simp add: percentile_at_def subscript_at_def)

text \<open>The doubles denoted by the four literals lie between 7/8 and 16383/16384.\<close>

lemma literal_bounds:
  assumes "7 / 8 \<le> q" and "q \<le> 16383 / 16384"
  shows "is_double (rnd q)" and "7 / 8 \<le> rnd q" and "rnd q \<le> 16383 / 16384"
    and "0 \<le> rnd q" and "rnd q < 1"
proof -
  have a: "is_double (7 / 8)" using is_double_dyadic [of 7 3] by simp
  have b: "is_double (16383 / 16384)" using is_double_dyadic [of 16383 14] by simp
  show "is_double (rnd q)" by simp
  show lo: "7 / 8 \<le> rnd q" using assms(1) a by (rule rnd_ge_double)
  show hi: "rnd q \<le> 16383 / 16384" using assms(2) b by (rule rnd_le_double)
  from lo show "0 \<le> rnd q" by simp
  from hi show "rnd q < 1" by simp
qed

lemma fold_dadd_map:
  "fold (\<lambda>c s. dadd s (f c)) xs a = fold (\<lambda>x s. dadd s x) (map f xs) a"
  by (induction xs arbitrary: a) simp_all

lemma map_sort_key: "map f (sort_key f xs) = sort (map f xs)"
  by (rule properties_for_sort [symmetric]) simp_all

lemma last_rank:
  assumes "0 < n" and "n < 2 ^ 64"
  shows "unat ((word_of_nat n :: size_t) - 1) = n - 1"
proof -
  obtain m where m: "n = Suc m" using assms(1) by (cases n) auto
  have "unat (word_of_nat m :: size_t) = m"
    using assms(2) m by (simp add: unat_of_nat)
  then show ?thesis by (simp add: m)
qed


text \<open>The six-sample scenario, evaluated: each of the four ranks is 5, and the sums
  10, 30, 60, 100, 150, 210 and the quotient 35 are exact.\<close>

lemma six_sorted:
  "sort_key duration_us six_samples =
     [unit_at 2 10, unit_at 2 20, unit_at 1 30, unit_at 2 40, unit_at 1 50, unit_at 1 60]"
  by (simp add: six_samples_def unit_at_def)

lemma six_percentile:
  assumes "length ws = 6" and "7 / 8 \<le> q" and "q \<le> 16383 / 16384"
  shows "percentile_at ws (rnd q) = Inr (duration_us (ws ! 5))"
proof -
  note p = literal_bounds [OF assms(2,3)]
  have c: "double_of_nat 6 = 6" by (simp add: double_of_nat_def)
  have a: "is_double (21 / 4)" using is_double_dyadic [of 21 2] by simp
  have b: "is_double (49149 / 8192)" using is_double_dyadic [of 49149 13] by simp
  have "21 / 4 \<le> 6 * rnd q" using p(2) by simp
  then have lo: "21 / 4 \<le> rnd (6 * rnd q)" using a by (rule rnd_ge_double)
  have "6 * rnd q \<le> 49149 / 8192" using p(3) by simp
  then have hi: "rnd (6 * rnd q) \<le> 49149 / 8192" using b by (rule rnd_le_double)
  from lo hi have "\<lfloor>rnd (6 * rnd q)\<rfloor> = 5" by linarith
  then have "to_size_t (dmul (double_of_nat 6) (rnd q)) = 5"
    by (simp add: to_size_t_def dmul_def c)
  then show ?thesis
    by (simp add: percentile_at_def subscript_at_def assms(1))
qed

lemma six_run:
  "PrintStatResults g six_samples offered rps cpu =
     Inr \<lparr>out_threads = g, out_offered_rps = offered, out_rps = rps, out_cpu_usage = cpu,
          out_samples = 6, out_min = 10, out_mean = Fin 35, out_p90 = 60, out_p99 = 60,
          out_p999 = 60, out_p9999 = 60, out_max = 60\<rparr>"
proof -
  have c: "double_of_nat (Suc (Suc (Suc (Suc (Suc (Suc 0)))))) = 6"
    by (simp add: double_of_nat_def)
  show ?thesis
    by (simp add: PrintStatResults_def six_sorted six_percentile subscript_at_def c
        fp_div_def dadd_def unit_at_def)
qed


lemma six_rank:
  assumes "7 / 8 \<le> q" and "q \<le> 16383 / 16384"
  shows "nat \<lfloor>dmul (double_of_nat (length six_samples)) (rnd q)\<rfloor> = 5"
proof -
  note p = literal_bounds [OF assms]
  have c: "double_of_nat (length six_samples) = 6"
    by (simp add: double_of_nat_def six_samples_def)
  have a: "is_double (21 / 4)" using is_double_dyadic [of 21 2] by simp
  have b: "is_double (49149 / 8192)" using is_double_dyadic [of 49149 13] by simp
  have "21 / 4 \<le> 6 * rnd q" using p(2) by simp
  then have lo: "21 / 4 \<le> rnd (6 * rnd q)" using a by (rule rnd_ge_double)
  have "6 * rnd q \<le> 49149 / 8192" using p(3) by simp
  then have hi: "rnd (6 * rnd q) \<le> 49149 / 8192" using b by (rule rnd_le_double)
  from lo hi have "\<lfloor>rnd (6 * rnd q)\<rfloor> = 5" by linarith
  then show ?thesis by (simp add: dmul_def c)
qed

text \<open>
  C4. On a non-empty sample set (of a size that fits \<open>size_t\<close>) PrintStatResults sorts
  the latencies in ascending order and reports, in the double arithmetic of the source:
  as mean their sum, accumulated in that order, divided by their number; as the
  percentiles for 0.90, 0.99, 0.999 and 0.9999 the elements at the rank that is the
  truncated product of the count and the fraction, which lies within the set; as minimum
  the element at rank 0 and as maximum the one at the last rank. On the six latencies
  10, 20, 30, 40, 50, 60 it reports min 10, max 60, mean 35 and p90 60.
\<close>

theorem PrintStatResults_nonempty:
  "(\<forall>w0. w0 \<noteq> [] \<and> length w0 < 2 ^ 64 \<longrightarrow>
      (\<exists>r. PrintStatResults g w0 offered rps cpu = Inr r \<and>
           sorted (sort (map duration_us w0)) \<and>
           mset (sort (map duration_us w0)) = mset (map duration_us w0) \<and>
           out_samples r = length w0 \<and>
           out_mean r = Fin (rnd (fold (\<lambda>x s. dadd s x) (sort (map duration_us w0)) 0 /
                                  double_of_nat (length w0))) \<and>
           out_p90 r = sort (map duration_us w0) !
                         nat \<lfloor>dmul (double_of_nat (length w0)) (rnd 0.9)\<rfloor> \<and>
           out_p99 r = sort (map duration_us w0) !
                         nat \<lfloor>dmul (double_of_nat (length w0)) (rnd 0.99)\<rfloor> \<and>
           out_p999 r = sort (map duration_us w0) !
                         nat \<lfloor>dmul (double_of_nat (length w0)) (rnd 0.999)\<rfloor> \<and>
           out_p9999 r = sort (map duration_us w0) !
                         nat \<lfloor>dmul (double_of_nat (length w0)) (rnd 0.9999)\<rfloor> \<and>
           nat \<lfloor>dmul (double_of_nat (length w0)) (rnd 0.9)\<rfloor> < length w0 \<and>
           nat \<lfloor>dmul (double_of_nat (length w0)) (rnd 0.99)\<rfloor> < length w0 \<and>
           nat \<lfloor>dmul (double_of_nat (length w0)) (rnd 0.999)\<rfloor> < length w0 \<and>
           nat \<lfloor>dmul (double_of_nat (length w0)) (rnd 0.9999)\<rfloor> < length w0 \<and>
           out_min r = sort (map duration_us w0) ! 0 \<and>
           out_max r = sort (map duration_us w0) ! (length w0 - 1))) \<and>
   PrintStatResults g six_samples offered rps cpu =
     Inr \<lparr>out_threads = g, out_offered_rps = offered, out_rps = rps, out_cpu_usage = cpu,
          out_samples = 6, out_min = 10, out_mean = Fin 35, out_p90 = 60, out_p99 = 60,
          out_p999 = 60, out_p9999 = 60, out_max = 60\<rparr>"
proof (intro conjI allI impI)
  fix w0 :: "work_unit list"
  assume a: "w0 \<noteq> [] \<and> length w0 < 2 ^ 64"
  define ws where "ws = sort_key duration_us w0"
  define n where "n = length w0"
  define c where "c = double_of_nat n"
  define ds where "ds = map duration_us ws"
  have len: "length ws = n" by (simp add: ws_def n_def)
  have n: "0 < n" "n < 2 ^ 64" using a by (simp_all add: n_def)
  have ne: "ws \<noteq> []" using len n by auto
  have sds: "sort (map duration_us w0) = ds"
    by (simp add: ds_def ws_def map_sort_key)
  have rk: "to_size_t (dmul c (rnd q)) < n" if "7 / 8 \<le> q" "q \<le> 16383 / 16384" for q
    unfolding c_def using n(1) literal_bounds [OF that] by (intro rank_in_range)
  have pc: "percentile_at ws (rnd q) = Inr (ds ! nat \<lfloor>dmul c (rnd q)\<rfloor>)"
    if "7 / 8 \<le> q" "q \<le> 16383 / 16384" for q
    using percentile_at_in_range [OF ne, of "rnd q"] literal_bounds [OF that] rk [OF that]
    by (simp add: len to_size_t_def c_def ds_def)
  have p90: "percentile_at ws (rnd 0.9) = Inr (ds ! nat \<lfloor>dmul c (rnd 0.9)\<rfloor>)"
    by (rule pc) simp_all
  have p99: "percentile_at ws (rnd 0.99) = Inr (ds ! nat \<lfloor>dmul c (rnd 0.99)\<rfloor>)"
    by (rule pc) simp_all
  have p999: "percentile_at ws (rnd 0.999) = Inr (ds ! nat \<lfloor>dmul c (rnd 0.999)\<rfloor>)"
    by (rule pc) simp_all
  have p9999: "percentile_at ws (rnd 0.9999) = Inr (ds ! nat \<lfloor>dmul c (rnd 0.9999)\<rfloor>)"
    by (rule pc) simp_all
  have r90: "nat \<lfloor>dmul c (rnd 0.9)\<rfloor> < n"
    using rk [of "0.9"] by (simp add: to_size_t_def)
  have r99: "nat \<lfloor>dmul c (rnd 0.99)\<rfloor> < n"
    using rk [of "0.99"] by (simp add: to_size_t_def)
  have r999: "nat \<lfloor>dmul c (rnd 0.999)\<rfloor> < n"
    using rk [of "0.999"] by (simp add: to_size_t_def)
  have r9999: "nat \<lfloor>dmul c (rnd 0.9999)\<rfloor> < n"
    using rk [of "0.9999"] by (simp add: to_size_t_def)
  have lo: "subscript_at ws 0 = Inr (ws ! 0)"
    using n by (simp add: subscript_at_def len)
  have hi: "subscript_at ws (unat ((word_of_nat (length ws) :: size_t) - 1)) = Inr (ws ! (n - 1))"
    using n last_rank [OF n] by (simp add: subscript_at_def len)
  have cpos: "c \<noteq> 0" using double_of_nat_pos(1) [OF n(1)] by (simp add: c_def)
  have mean: "fp_div (fold (\<lambda>c s. dadd s (duration_us c)) ws 0) (double_of_nat (length ws)) =
      Fin (rnd (fold (\<lambda>x s. dadd s x) ds 0 / c))"
    using cpos by (simp add: fp_div_def fold_dadd_map [symmetric] len c_def ds_def)
  have run: "PrintStatResults g w0 offered rps cpu =
     Inr \<lparr>out_threads = g, out_offered_rps = offered, out_rps = rps, out_cpu_usage = cpu,
          out_samples = n, out_min = duration_us (ws ! 0),
          out_mean = Fin (rnd (fold (\<lambda>x s. dadd s x) ds 0 / c)),
          out_p90 = ds ! nat \<lfloor>dmul c (rnd 0.9)\<rfloor>,
          out_p99 = ds ! nat \<lfloor>dmul c (rnd 0.99)\<rfloor>,
          out_p999 = ds ! nat \<lfloor>dmul c (rnd 0.999)\<rfloor>,
          out_p9999 = ds ! nat \<lfloor>dmul c (rnd 0.9999)\<rfloor>,
          out_max = duration_us (ws ! (n - 1))\<rparr>"
    unfolding PrintStatResults_def Let_def ws_def [symmetric] p90 p99 p999 p9999 lo hi mean
    by (simp add: len)
  have sel: "ds ! k = duration_us (ws ! k)" if "k < n" for k
    using that len by (simp add: ds_def)
  have srt: "sorted ds" "mset ds = mset (map duration_us w0)"
    unfolding sds [symmetric] by simp_all
  show "\<exists>r. PrintStatResults g w0 offered rps cpu = Inr r \<and>
           sorted (sort (map duration_us w0)) \<and>
           mset (sort (map duration_us w0)) = mset (map duration_us w0) \<and>
           out_samples r = length w0 \<and>
           out_mean r = Fin (rnd (fold (\<lambda>x s. dadd s x) (sort (map duration_us w0)) 0 /
                                  double_of_nat (length w0))) \<and>
           out_p90 r = sort (map duration_us w0) !
                         nat \<lfloor>dmul (double_of_nat (length w0)) (rnd 0.9)\<rfloor> \<and>
           out_p99 r = sort (map duration_us w0) !
                         nat \<lfloor>dmul (double_of_nat (length w0)) (rnd 0.99)\<rfloor> \<and>
           out_p999 r = sort (map duration_us w0) !
                         nat \<lfloor>dmul (double_of_nat (length w0)) (rnd 0.999)\<rfloor> \<and>
           out_p9999 r = sort (map duration_us w0) !
                         nat \<lfloor>dmul (double_of_nat (length w0)) (rnd 0.9999)\<rfloor> \<and>
           nat \<lfloor>dmul (double_of_nat (length w0)) (rnd 0.9)\<rfloor> < length w0 \<and>
           nat \<lfloor>dmul (double_of_nat (length w0)) (rnd 0.99)\<rfloor> < length w0 \<and>
           nat \<lfloor>dmul (double_of_nat (length w0)) (rnd 0.999)\<rfloor> < length w0 \<and>
           nat \<lfloor>dmul (double_of_nat (length w0)) (rnd 0.9999)\<rfloor> < length w0 \<and>
           out_min r = sort (map duration_us w0) ! 0 \<and>
           out_max r = sort (map duration_us w0) ! (length w0 - 1)"
    unfolding run sds n_def [symmetric] c_def [symmetric]
    using n sel [of 0] sel [of "n - 1"] srt r90 r99 r999 r9999 by simp
next
  show "PrintStatResults g six_samples offered rps cpu =
     Inr \<lparr>out_threads = g, out_offered_rps = offered, out_rps = rps, out_cpu_usage = cpu,
          out_samples = 6, out_min = 10, out_mean = Fin 35, out_p90 = 60, out_p99 = 60,
          out_p999 = 60, out_p9999 = 60, out_max = 60\<rparr>"
    by (rule six_run)
qed

text \<open>The general part of C4 used on the six samples: the sorted latencies, rank 5 for
  0.9, and the reported line.\<close>

theorem PrintStatResults_nonempty_witness:
  "six_samples \<noteq> [] \<and> length six_samples < 2 ^ 64 \<and>
   sort (map duration_us six_samples) = [10, 20, 30, 40, 50, 60] \<and>
   nat \<lfloor>dmul (double_of_nat (length six_samples)) (rnd 0.9)\<rfloor> = 5 \<and>
   PrintStatResults 3 six_samples 20000 (Fin 1) (Fin 0) =
     Inr \<lparr>out_threads = 3, out_offered_rps = 20000, out_rps = Fin 1, out_cpu_usage = Fin 0,
          out_samples = 6, out_min = 10, out_mean = Fin 35, out_p90 = 60, out_p99 = 60,
          out_p999 = 60, out_p9999 = 60, out_max = 60\<rparr>"
proof -
  have h: "six_samples \<noteq> [] \<and> length six_samples < 2 ^ 64"
    by (simp add: six_samples_def)
  have s: "sort (map duration_us six_samples) = [10, 20, 30, 40, 50, 60]"
    by (simp add: six_samples_def unit_at_def)
  have k: "nat \<lfloor>dmul (double_of_nat (length six_samples)) (rnd 0.9)\<rfloor> = 5"
    by (rule six_rank) simp_all
  from PrintStatResults_nonempty [of 3 20000 "Fin 1" "Fin 0", THEN conjunct1, rule_format, OF h]
  obtain r where r: "PrintStatResults 3 six_samples 20000 (Fin 1) (Fin 0) = Inr r"
    and "out_min r = sort (map duration_us six_samples) ! 0"
    and "out_p90 r = sort (map duration_us six_samples) !
           nat \<lfloor>dmul (double_of_nat (length six_samples)) (rnd 0.9)\<rfloor>"
    by blast
  then have "out_min r = 10 \<and> out_p90 r = 60" by (simp only: s k) simp
  with r six_run [of 3 20000 "Fin 1" "Fin 0"] h s k show ?thesis by simp
qed

text \<open>
  C8. Percentile monotonicity: on a non-empty sample sequence sorted by non-decreasing
  latency, for rank fractions \<open>0 \<le> p1 < p2 < 1\<close>, where \<open>p2\<close> is a double as every
  fraction of the source is, both percentile values exist and the one at \<open>p1\<close> is at
  most the one at \<open>p2\<close>.
\<close>

theorem percentile_at_mono:
  assumes "ws \<noteq> []" and "sorted (map duration_us ws)"
      and "is_double p2" and "0 \<le> p1" and "p1 < p2" and "p2 < 1"
  shows "\<exists>v1 v2. percentile_at ws p1 = Inr v1 \<and> percentile_at ws p2 = Inr v2 \<and> v1 \<le> v2"
proof -
  let ?n = "length ws"
  let ?k1 = "to_size_t (dmul (double_of_nat ?n) p1)"
  let ?k2 = "to_size_t (dmul (double_of_nat ?n) p2)"
  have n: "0 < ?n" using assms(1) by simp
  have k2: "?k2 < ?n" using rank_in_range [OF n assms(3)] assms by simp
  have k12: "?k1 \<le> ?k2" using rank_mono [of p1 p2 ?n] assms by simp
  have "map duration_us ws ! ?k1 \<le> map duration_us ws ! ?k2"
    using assms(2) k12 k2 by (simp add: sorted_iff_nth_mono del: nth_map)
  then have "duration_us (ws ! ?k1) \<le> duration_us (ws ! ?k2)"
    using k12 k2 by simp
  moreover have "percentile_at ws p1 = Inr (duration_us (ws ! ?k1))"
    using k12 k2 by (simp add: percentile_at_def subscript_at_def)
  moreover have "percentile_at ws p2 = Inr (duration_us (ws ! ?k2))"
    using k2 by (simp add: percentile_at_def subscript_at_def)
  ultimately show ?thesis by simp
qed

text \<open>On the six samples, sorted: the values at 1/2 and 7/8 are 40 and 60.\<close>

theorem percentile_at_mono_witness:
  "sort_key duration_us six_samples \<noteq> [] \<and>
   sorted (map duration_us (sort_key duration_us six_samples)) \<and>
   is_double (7 / 8) \<and> (0 :: real) \<le> 1 / 2 \<and> (1 / 2 :: real) < 7 / 8 \<and> (7 / 8 :: real) < 1 \<and>
   percentile_at (sort_key duration_us six_samples) (1 / 2) = Inr 40 \<and>
   percentile_at (sort_key duration_us six_samples) (7 / 8) = Inr 60 \<and>
   (40 :: real) \<le> 60"
proof -
  have d: "is_double (7 / 8)" using is_double_dyadic [of 7 3] by simp
  have h: "sort_key duration_us six_samples \<noteq> []"
      "sorted (map duration_us (sort_key duration_us six_samples))"
    by (simp_all add: six_sorted unit_at_def)
  have c: "double_of_nat (Suc (Suc (Suc (Suc (Suc (Suc 0)))))) = 6"
    by (simp add: double_of_nat_def)
  have r: "rnd (21 / 4) = 21 / 4"
    using is_double_dyadic [of 21 2] by (simp add: is_double_def)
  have v: "percentile_at (sort_key duration_us six_samples) (1 / 2) = Inr 40"
      "percentile_at (sort_key duration_us six_samples) (7 / 8) = Inr 60"
    by (simp_all add: six_sorted percentile_at_def subscript_at_def to_size_t_def dmul_def c r
        unit_at_def)
  from percentile_at_mono [OF h d, of "1 / 2"] v h d show ?thesis by simp
qed


section \<open>One iteration of the replay loop\<close>

lemma late_iff:
  "late e w0 i \<longleftrightarrow> dsub (micros (now_woken e i) (expstart e)) (start_us (w0 ! i)) > 5"
  by (simp add: late_def kMaxCatchUpUS_def double_of_nat_def)

lemma sub_w_simps:
  "w_vec (sub_w i st) = w_vec st" "timings (sub_w i st) = timings st"
  "dropped (sub_w i st) = dropped st" "sleeps (sub_w i st) = sleeps st"
  "issued (sub_w i st) = issued st"
  "subs (sub_w i st) = subs st @ [\<lparr>svec = Vec_w, sidx = i, ssize = length (w_vec st)\<rparr>]"
  by (simp_all add: sub_w_def)

lemma sub_timings_simps:
  "w_vec (sub_timings i st) = w_vec st" "timings (sub_timings i st) = timings st"
  "dropped (sub_timings i st) = dropped st" "sleeps (sub_timings i st) = sleeps st"
  "issued (sub_timings i st) = issued st"
  "subs (sub_timings i st) =
     subs st @ [\<lparr>svec = Vec_timings, sidx = i, ssize = vsize (timings st)\<rparr>]"
  by (simp_all add: sub_timings_def)

lemma spawned_w_vec:
  "vslots (timings st) i = now_dispatch e i \<Longrightarrow>
   w_vec (spawned e i st) = (w_vec st)[i := served e i (w_vec st ! i)]"
  by (simp add: spawned_def Let_def sub_w_simps sub_timings_simps served_def)

lemma spawned_issued:
  "issued (spawned e i st) = issued st @ [(i, op_of (w_vec st ! i))]"
  by (simp add: spawned_def Let_def sub_w_simps sub_timings_simps op_of_def)

lemma spawned_misc:
  "timings (spawned e i st) = timings st" "dropped (spawned e i st) = dropped st"
  "sleeps (spawned e i st) = sleeps st"
  by (simp_all add: spawned_def Let_def sub_w_simps sub_timings_simps)

lemma spawned_subs:
  "\<exists>xs. subs (spawned e i st) = subs st @ xs \<and>
      (\<forall>a \<in> set xs. sidx a = i \<and>
         ssize a = (case svec a of Vec_w \<Rightarrow> length (w_vec st) | Vec_timings \<Rightarrow> vsize (timings st)))"
  by (simp add: spawned_def Let_def sub_w_simps sub_timings_simps)

lemma replay_item_late:
  assumes "late e (w_vec st) i"
  shows "w_vec (replay_item e i st) = w_vec st"
    and "issued (replay_item e i st) = issued st"
    and "dropped (replay_item e i st) = dropped st + 1"
    and "timings (replay_item e i st) = timings st"
  using assms by (simp_all add: replay_item_def Let_def sub_w_simps late_def)

lemma replay_item_on_time:
  assumes "\<not> late e (w_vec st) i"
  shows "w_vec (replay_item e i st) = (w_vec st)[i := served e i (w_vec st ! i)]"
    and "issued (replay_item e i st) = issued st @ [(i, op_of (w_vec st ! i))]"
    and "dropped (replay_item e i st) = dropped st"
    and "vsize (timings (replay_item e i st)) = vsize (timings st)"
    and "vcapacity (timings (replay_item e i st)) = vcapacity (timings st)"
  using assms
  by (simp_all add: replay_item_def Let_def sub_w_simps sub_timings_simps late_def
      spawned_w_vec spawned_issued spawned_misc)

lemma replay_item_subs:
  "\<exists>xs. subs (replay_item e i st) = subs st @ xs \<and>
      (\<forall>a \<in> set xs. sidx a = i \<and>
         ssize a = (case svec a of Vec_w \<Rightarrow> length (w_vec st) | Vec_timings \<Rightarrow> vsize (timings st))) \<and>
      (\<not> late e (w_vec st) i \<longrightarrow>
         \<lparr>svec = Vec_timings, sidx = i, ssize = vsize (timings st)\<rparr> \<in> set xs)"
proof (cases "late e (w_vec st) i")
  case True
  then show ?thesis
    by (simp add: replay_item_def Let_def sub_w_simps late_def)
next
  case False
  define st5 where "st5 =
     (sub_timings i (sub_w i (if micros (now_loop e i) (expstart e) < start_us (w_vec st ! i)
                 then (sub_w i (sub_w i st))\<lparr>sleeps := sleeps st @
                            [(i, dsub (start_us (w_vec st ! i)) (micros (now_loop e i) (expstart e)))]\<rparr>
                 else sub_w i st)))\<lparr>timings := (timings st)
                        \<lparr>vslots := (vslots (timings st))(i := now_dispatch e i)\<rparr>\<rparr>"
  have r: "replay_item e i st = spawned e i st5"
    using False
    by (simp add: st5_def replay_item_def Let_def sub_w_simps sub_timings_simps late_def)
  have same: "w_vec st5 = w_vec st" "vsize (timings st5) = vsize (timings st)"
    by (simp_all add: st5_def sub_w_simps sub_timings_simps)
  have "\<exists>ys. subs st5 = subs st @ ys \<and>
    (\<forall>a \<in> set ys. sidx a = i \<and>
         ssize a = (case svec a of Vec_w \<Rightarrow> length (w_vec st) | Vec_timings \<Rightarrow> vsize (timings st))) \<and>
    \<lparr>svec = Vec_timings, sidx = i, ssize = vsize (timings st)\<rparr> \<in> set ys"
    by (cases "micros (now_loop e i) (expstart e) < start_us (w_vec st ! i)")
       (simp_all add: st5_def sub_w_simps sub_timings_simps)
  then obtain ys where ys: "subs st5 = subs st @ ys"
    "\<forall>a \<in> set ys. sidx a = i \<and>
         ssize a = (case svec a of Vec_w \<Rightarrow> length (w_vec st) | Vec_timings \<Rightarrow> vsize (timings st))"
    "\<lparr>svec = Vec_timings, sidx = i, ssize = vsize (timings st)\<rparr> \<in> set ys"
    by blast
  obtain xs where xs: "subs (spawned e i st5) = subs st5 @ xs"
      "\<forall>a \<in> set xs. sidx a = i \<and>
         ssize a = (case svec a of Vec_w \<Rightarrow> length (w_vec st) | Vec_timings \<Rightarrow> vsize (timings st))"
    using spawned_subs [of e i st5] unfolding same by blast
  have "subs (replay_item e i st) = subs st @ (ys @ xs)"
    by (simp add: r xs(1) ys(1))
  moreover have "\<forall>a \<in> set (ys @ xs). sidx a = i \<and>
         ssize a = (case svec a of Vec_w \<Rightarrow> length (w_vec st) | Vec_timings \<Rightarrow> vsize (timings st))"
    using xs(2) ys(2) by auto
  moreover have "\<lparr>svec = Vec_timings, sidx = i, ssize = vsize (timings st)\<rparr> \<in> set (ys @ xs)"
    using ys(3) by simp
  ultimately show ?thesis by blast
qed


section \<open>The replay loop\<close>

text \<open>Each iteration extends the description \<open>replayed\<close> by one item, so the worker
  returns, on a schedule of fewer than \<open>2 ^ 31\<close> items, in a state that \<open>replayed\<close>
  describes for the whole schedule.\<close>

lemma start_us_served: "start_us (served e i u) = start_us u"
  by (simp add: served_def)

lemma replayed_step:
  assumes inv: "replayed e w0 k st" and k: "k < length w0"
  shows "replayed e w0 (Suc k) (replay_item e k st)"
proof -
  have len: "length (w_vec st) = length w0" using inv by (simp add: replayed_def)
  have cur: "w_vec st ! k = w0 ! k" using inv k by (simp add: replayed_def)
  have lt: "late e (w_vec st) k \<longleftrightarrow> late e w0 k" by (simp add: late_def cur)
  have vs: "vsize (timings st) = 0" using inv by (simp add: replayed_def)
  obtain xs where xs: "subs (replay_item e k st) = subs st @ xs"
    "\<forall>a \<in> set xs. sidx a = k \<and>
         ssize a = (case svec a of Vec_w \<Rightarrow> length w0 | Vec_timings \<Rightarrow> 0)"
    "\<not> late e w0 k \<longrightarrow> \<lparr>svec = Vec_timings, sidx = k, ssize = 0\<rparr> \<in> set xs"
    using replay_item_subs [of e k st] unfolding lt len vs by blast
  have subs1: "\<forall>a \<in> set (subs (replay_item e k st)). sidx a < Suc k \<and>
        ssize a = (case svec a of Vec_w \<Rightarrow> length w0 | Vec_timings \<Rightarrow> 0)"
    using inv xs(1,2) by (auto simp: replayed_def less_Suc_eq)
  have subs2: "\<forall>j < Suc k. \<not> late e w0 j \<longrightarrow>
      \<lparr>svec = Vec_timings, sidx = j, ssize = 0\<rparr> \<in> set (subs (replay_item e k st))"
    using inv xs(1,3) by (auto simp: replayed_def less_Suc_eq)
  show ?thesis
  proof (cases "late e w0 k")
    case True
    then have l: "late e (w_vec st) k" by (simp add: lt)
    have "\<forall>j < length w0. w_vec st ! j =
        (if j < Suc k \<and> \<not> late e w0 j then served e j (w0 ! j) else w0 ! j)"
      using inv True by (auto simp: replayed_def less_Suc_eq)
    with inv True subs1 subs2 show ?thesis
      unfolding replayed_def [of e w0 "Suc k"]
      by (simp add: replay_item_late [OF l] replayed_def)
  next
    case False
    then have l: "\<not> late e (w_vec st) k" by (simp add: lt)
    have "\<forall>j < length w0. (w_vec st)[k := served e k (w_vec st ! k)] ! j =
        (if j < Suc k \<and> \<not> late e w0 j then served e j (w0 ! j) else w0 ! j)"
      using inv False k by (auto simp: replayed_def less_Suc_eq nth_list_update)
    with inv False subs1 subs2 show ?thesis
      unfolding replayed_def [of e w0 "Suc k"]
      by (simp add: replay_item_on_time [OF l] replayed_def cur)
  qed
qed

lemma replayed_fold:
  assumes "replayed e w0 0 st" and "k \<le> length w0"
  shows "replayed e w0 k (fold (replay_item e) [0..<k] st)"
  using assms(2)
proof (induction k)
  case 0
  then show ?case using assms(1) by simp
next
  case (Suc k)
  then show ?case by (simp add: replayed_step)
qed

lemma replayed_init:
  "replayed e w0 0 \<lparr>w_vec = w0,
     timings = \<lparr>vsize = 0, vcapacity = length w0, vslots = reserved_content e\<rparr>,
     dropped = 0, sleeps = [], issued = [], subs = []\<rparr>"
  by (simp add: replayed_def)

lemma ClientWorker_replayed:
  assumes "length w0 < 2 ^ 31"
  shows "\<exists>st. ClientWorker e (Some w0) = Some st \<and> replayed e w0 (length w0) st"
proof -
  define st where "st = fold (replay_item e) [0..<length w0]
     \<lparr>w_vec = w0,
      timings = \<lparr>vsize = 0, vcapacity = length w0, vslots = reserved_content e\<rparr>,
      dropped = 0, sleeps = [], issued = [], subs = []\<rparr>"
  have inv: "replayed e w0 (length w0) st"
    unfolding st_def by (rule replayed_fold [OF replayed_init]) simp
  then have "dropped st = length (filter (late e w0) [0..<length w0])"
    by (simp add: replayed_def)
  also have "\<dots> \<le> length w0" using length_filter_le [of "late e w0" "[0..<length w0]"] by simp
  finally have "dropped st < 2 ^ 31" using assms by simp
  moreover have "length w0 < (2 :: nat) ^ 32" using assms by simp
  ultimately have "ClientWorker e (Some w0) = Some st"
    by (simp add: ClientWorker_def Let_def st_def)
  with inv show ?thesis by blast
qed



section \<open>Properties of a worker\<close>

text \<open>A worker that wakes up 20 microseconds after the start, on a schedule of an item
  due at 20 and an item due at 0: the second item is late. The runs with a failing and
  with a succeeding backend.\<close>

lemma upt_2: "[0..<2] = [0, 1]"
  by (simp add: upt_conv_Cons)

lemma run_late_and_failing:
  "map_option w_vec (ClientWorker (woken_at_20 1) (Some [unit_at 20 0, unit_at 0 0])) =
     Some [unit_at 20 0, unit_at 0 0]"
  "map_option issued (ClientWorker (woken_at_20 1) (Some [unit_at 20 0, unit_at 0 0])) =
     Some [(0, Storage_read 8)]"
  by (simp_all add: ClientWorker_def Let_def upt_2 replay_item_late replay_item_on_time
      late_iff micros_def double_of_int_def dsub_def woken_at_20_def unit_at_def served_def
      op_of_def)

lemma run_late_and_served:
  "map_option w_vec (ClientWorker (woken_at_20 0) (Some [unit_at 20 0, unit_at 0 0])) =
     Some [unit_at 20 2, unit_at 0 0]"
  by (simp_all add: ClientWorker_def Let_def upt_2 replay_item_late replay_item_on_time
      late_iff micros_def double_of_int_def dsub_def woken_at_20_def unit_at_def served_def
      op_of_def)

text \<open>
  C3. In the replay loop, an item whose re-measured elapsed time exceeds its scheduled
  offset by more than 5 microseconds is dropped: no operation is issued for it and the
  worker returns it as it was, with a latency of 0 if it had one of 0; the loop goes on,
  so every item that is not late, before or after a dropped one, is issued. An item whose
  operation returns a non-success status is returned as it was as well. The lateness
  test is the one of the source: the difference of doubles compared with 5. The worker
  returns on every schedule of fewer than \<open>2 ^ 31\<close> items, on which neither the loop
  counter nor the counter of dropped items can overflow.
\<close>

theorem ClientWorker_drops_and_failures:
  assumes "length w0 < 2 ^ 31" and "i < length w0"
  shows "\<exists>st. ClientWorker e (Some w0) = Some st \<and> length (w_vec st) = length w0 \<and>
     (dsub (micros (now_woken e i) (expstart e)) (start_us (w0 ! i)) > 5 \<longrightarrow>
        i \<notin> fst ` set (issued st) \<and> w_vec st ! i = w0 ! i \<and>
        (duration_us (w0 ! i) = 0 \<longrightarrow> duration_us (w_vec st ! i) = 0)) \<and>
     (\<not> dsub (micros (now_woken e i) (expstart e)) (start_us (w0 ! i)) > 5 \<longrightarrow>
        (i, op_of (w0 ! i)) \<in> set (issued st)) \<and>
     (storage_ret e i \<noteq> 0 \<longrightarrow>
        w_vec st ! i = w0 ! i \<and>
        (duration_us (w0 ! i) = 0 \<longrightarrow> duration_us (w_vec st ! i) = 0)) \<and>
     dropped st = length (filter (\<lambda>j. dsub (micros (now_woken e j) (expstart e)) (start_us (w0 ! j)) > 5)
                     [0..<length w0])"
proof -
  obtain st where run: "ClientWorker e (Some w0) = Some st"
    and inv: "replayed e w0 (length w0) st"
    using ClientWorker_replayed [OF assms(1)] by blast
  have len: "length (w_vec st) = length w0"
    using inv by (simp add: replayed_def)
  have item: "w_vec st ! i = (if \<not> late e w0 i then served e i (w0 ! i) else w0 ! i)"
    using inv assms(2) by (simp add: replayed_def)
  have iss: "issued st = map (\<lambda>j. (j, op_of (w0 ! j))) (filter (\<lambda>j. \<not> late e w0 j) [0..<length w0])"
    using inv by (simp add: replayed_def)
  have drp: "dropped st = length (filter (late e w0) [0..<length w0])"
    using inv by (simp add: replayed_def)
  have fst_iss: "fst ` set (issued st) = {j. j < length w0 \<and> \<not> late e w0 j}"
    unfolding iss by (auto simp: image_iff)
  have a: "late e w0 i \<Longrightarrow> i \<notin> fst ` set (issued st) \<and> w_vec st ! i = w0 ! i"
    using item fst_iss by simp
  have b: "\<not> late e w0 i \<Longrightarrow> (i, op_of (w0 ! i)) \<in> set (issued st)"
    unfolding iss using assms(2) by simp
  have c: "storage_ret e i \<noteq> 0 \<Longrightarrow> w_vec st ! i = w0 ! i"
    using item by (simp add: served_def)
  have d: "late e w0 = (\<lambda>j. dsub (micros (now_woken e j) (expstart e)) (start_us (w0 ! j)) > 5)"
    by (rule ext) (simp add: late_iff)
  show ?thesis
    using run len a b c drp unfolding d by simp
qed

text \<open>On the two-item schedule with a failing backend: item 1 is late, item 0 is on
  time and fails; both come back with latency 0, only item 0 was issued, one item was
  dropped.\<close>

theorem ClientWorker_drops_and_failures_witness:
  "length [unit_at 20 0, unit_at 0 0] < (2 :: nat) ^ 31 \<and>
   dsub (micros (now_woken (woken_at_20 1) 1) (expstart (woken_at_20 1))) (start_us (unit_at 0 0)) > 5 \<and>
   \<not> dsub (micros (now_woken (woken_at_20 1) 0) (expstart (woken_at_20 1))) (start_us (unit_at 20 0)) > 5 \<and>
   storage_ret (woken_at_20 1) 0 \<noteq> 0 \<and>
   map_option w_vec (ClientWorker (woken_at_20 1) (Some [unit_at 20 0, unit_at 0 0])) =
     Some [unit_at 20 0, unit_at 0 0] \<and>
   map_option issued (ClientWorker (woken_at_20 1) (Some [unit_at 20 0, unit_at 0 0])) =
     Some [(0, Storage_read 8)] \<and>
   map_option dropped (ClientWorker (woken_at_20 1) (Some [unit_at 20 0, unit_at 0 0])) = Some 1"
proof -
  let ?e = "woken_at_20 1"
  let ?w0 = "[unit_at 20 0, unit_at 0 0]"
  have n: "length ?w0 < 2 ^ 31" by simp
  have late1: "dsub (micros (now_woken ?e 1) (expstart ?e)) (start_us (?w0 ! 1)) > 5"
    and on_time0: "\<not> dsub (micros (now_woken ?e 0) (expstart ?e)) (start_us (?w0 ! 0)) > 5"
    and fails0: "storage_ret ?e 0 \<noteq> 0"
    by (simp_all add: woken_at_20_def micros_def double_of_int_def dsub_def unit_at_def)
  have d: "length (filter (\<lambda>j. dsub (micros (now_woken ?e j) (expstart ?e)) (start_us (?w0 ! j)) > 5)
              [0..<length ?w0]) = 1"
    by (simp add: upt_2 woken_at_20_def micros_def double_of_int_def dsub_def unit_at_def)
  from ClientWorker_drops_and_failures [OF n, of 1 ?e] late1
  obtain st where st: "ClientWorker ?e (Some ?w0) = Some st"
    and unchanged1: "w_vec st ! 1 = ?w0 ! 1" and not_issued1: "1 \<notin> fst ` set (issued st)"
    and drops: "dropped st = length (filter (\<lambda>j. dsub (micros (now_woken ?e j) (expstart ?e))
              (start_us (?w0 ! j)) > 5) [0..<length ?w0])"
    by auto
  from ClientWorker_drops_and_failures [OF n, of 0 ?e] on_time0 fails0 st
  have issued0: "(0, op_of (?w0 ! 0)) \<in> set (issued st)" and unchanged0: "w_vec st ! 0 = ?w0 ! 0"
    by auto
  from st drops d have "map_option dropped (ClientWorker ?e (Some ?w0)) = Some 1"
    by simp
  with late1 on_time0 fails0 run_late_and_failing show ?thesis by simp
qed

text \<open>
  C9, at a failing input. The claim is that every subscript a worker performs lies within
  the size of the vector. On a schedule of one item that is on time, the worker subscripts
  \<open>timings\<close> at index 0 twice (the write of line 84 and the read of line 100) while the
  size of \<open>timings\<close> is 0: \<open>reserve\<close> has set its capacity, not its size. These are the
  subscripts of the run that are out of bounds.
\<close>

theorem ClientWorker_timings_subscript:
  "map_option (\<lambda>st. filter (\<lambda>a. \<not> in_bounds a) (subs st))
      (ClientWorker (woken_at_20 0) (Some [unit_at 20 0])) =
   Some [\<lparr>svec = Vec_timings, sidx = 0, ssize = 0\<rparr>, \<lparr>svec = Vec_timings, sidx = 0, ssize = 0\<rparr>]"
  by (simp add: ClientWorker_def woken_at_20_def unit_at_def replay_item_def spawned_def
      sub_w_def sub_timings_def micros_def double_of_int_def double_of_nat_def dsub_def
      kMaxCatchUpUS_def Let_def in_bounds_def)

text \<open>In general every subscript of \<open>w\<close> is within bounds and every subscript of
  \<open>timings\<close> is not, and there is one for each item that is not late.\<close>

lemma ClientWorker_subscripts:
  assumes "length w0 < 2 ^ 31"
  shows "\<exists>st. ClientWorker e (Some w0) = Some st \<and>
     (\<forall>a \<in> set (subs st). sidx a < length w0 \<and> (svec a = Vec_w \<longrightarrow> in_bounds a) \<and>
         (svec a = Vec_timings \<longrightarrow> \<not> in_bounds a)) \<and>
     (\<forall>i < length w0. \<not> late e w0 i \<longrightarrow>
         \<lparr>svec = Vec_timings, sidx = i, ssize = 0\<rparr> \<in> set (subs st))"
proof -
  obtain st where run: "ClientWorker e (Some w0) = Some st"
    and inv: "replayed e w0 (length w0) st"
    using ClientWorker_replayed [OF assms(1)] by blast
  have "\<forall>a \<in> set (subs st). sidx a < length w0 \<and>
        ssize a = (case svec a of Vec_w \<Rightarrow> length w0 | Vec_timings \<Rightarrow> 0)"
    using inv by (simp add: replayed_def)
  then have "\<forall>a \<in> set (subs st). sidx a < length w0 \<and> (svec a = Vec_w \<longrightarrow> in_bounds a) \<and>
         (svec a = Vec_timings \<longrightarrow> \<not> in_bounds a)"
    by (auto simp: in_bounds_def)
  moreover have "\<forall>i < length w0. \<not> late e w0 i \<longrightarrow>
         \<lparr>svec = Vec_timings, sidx = i, ssize = 0\<rparr> \<in> set (subs st)"
    using inv by (simp add: replayed_def)
  ultimately show ?thesis using run by blast
qed




section \<open>Properties of an experiment\<close>

lemma those_map_Some:
  "those (map f xs) = Some ys \<longleftrightarrow>
     length ys = length xs \<and> (\<forall>i < length xs. f (xs ! i) = Some (ys ! i))"
proof (induction xs arbitrary: ys)
  case Nil
  then show ?case by auto
next
  case (Cons x xs)
  show ?case
  proof (cases "f x")
    case None
    then show ?thesis by auto
  next
    case (Some y)
    show ?thesis
    proof (cases "those (map f xs)")
      case None
      have "\<not> (length ys = length (x # xs) \<and> (\<forall>i < length (x # xs). f ((x # xs) ! i) = Some (ys ! i)))"
      proof
        assume h: "length ys = length (x # xs) \<and> (\<forall>i < length (x # xs). f ((x # xs) ! i) = Some (ys ! i))"
        then obtain y' ys' where ys: "ys = y' # ys'" by (cases ys) auto
        from h have "length ys' = length xs \<and> (\<forall>i < length xs. f (xs ! i) = Some (ys' ! i))"
          unfolding ys by fastforce
        with Cons.IH [of ys'] None show False by simp
      qed
      with Some None show ?thesis by simp
    next
      case (Some zs)
      note zs = this
      show ?thesis
      proof (cases ys)
        case Nil
        then show ?thesis using \<open>f x = Some y\<close> zs by auto
      next
        case (Cons y' ys')
        have "(\<forall>i < Suc (length xs). f ((x # xs) ! i) = Some ((y' # ys') ! i)) \<longleftrightarrow>
              f x = Some y' \<and> (\<forall>i < length xs. f (xs ! i) = Some (ys' ! i))"
          by (auto simp: nth_Cons split: nat.splits) 
        with Cons.IH [of ys'] \<open>f x = Some y\<close> zs Cons show ?thesis by auto
      qed
    qed
  qed
qed


text \<open>What a returning experiment returns, and an experiment whose workers all return.\<close>

text \<open>What a returning experiment returns, and an experiment whose workers all return.\<close>

lemma RunExperiment_Some:
  assumes "RunExperiment threads reqs_per_sec cpu_usage wf_results envs start finish mem =
             Some (w1, mem1)"
  obtains samples where "0 \<le> threads"
    "those (map (\<lambda>i. ClientWorker (envs i) (wf_results i)) [0..<nat threads]) = Some samples"
    "w1 = filter (\<lambda>s. \<not> duration_us s = 0) (concat (map w_vec samples))"
    "mem1 = (case reqs_per_sec of
               None \<Rightarrow> mem
             | Some p \<Rightarrow> mem(p := fp_times (fp_div (double_of_nat (length w1))
                                     (micros finish start)) 1000000))"
  using assms by (auto simp: RunExperiment_def Let_def split: option.splits if_splits)

lemma RunExperiment_samples:
  assumes "0 \<le> threads" and "length samples = nat threads"
    and "\<forall>i < nat threads. ClientWorker (envs i) (wf_results i) = Some (samples ! i)"
  shows "RunExperiment threads reqs_per_sec cpu_usage wf_results envs start finish mem =
     Some (filter (\<lambda>s. \<not> duration_us s = 0) (concat (map w_vec samples)),
           case reqs_per_sec of
             None \<Rightarrow> mem
           | Some p \<Rightarrow> mem(p := fp_times (fp_div
                 (double_of_nat (length (filter (\<lambda>s. \<not> duration_us s = 0)
                    (concat (map w_vec samples)))))
                 (micros finish start)) 1000000))"
proof -
  have "those (map (\<lambda>i. ClientWorker (envs i) (wf_results i)) [0..<nat threads]) = Some samples"
    unfolding those_map_Some using assms(2,3) by simp
  then show ?thesis using assms(1) by (simp add: RunExperiment_def Let_def)
qed

lemma RunExperiment_returns:
  assumes pos: "0 \<le> threads" and len: "length vs = nat threads"
    and runs: "\<forall>i < nat threads. map_option w_vec (ClientWorker (envs i) (wf_results i)) = Some (vs ! i)"
  shows "RunExperiment threads reqs_per_sec cpu_usage wf_results envs start finish mem =
     Some (filter (\<lambda>s. \<not> duration_us s = 0) (concat vs),
           case reqs_per_sec of
             None \<Rightarrow> mem
           | Some p \<Rightarrow> mem(p := fp_times (fp_div
                 (double_of_nat (length (filter (\<lambda>s. \<not> duration_us s = 0) (concat vs))))
                 (micros finish start)) 1000000))"
proof -
  let ?f = "\<lambda>i. ClientWorker (envs i) (wf_results i)"
  define samples where "samples = map (\<lambda>i. the (?f i)) [0..<nat threads]"
  have each: "?f i = Some (samples ! i)" if "i < nat threads" for i
    using runs that by (auto simp: samples_def)
  have "map w_vec samples = vs"
  proof (rule nth_equalityI)
    show "length (map w_vec samples) = length vs" by (simp add: samples_def len)
  next
    fix i assume "i < length (map w_vec samples)"
    then have i: "i < nat threads" by (simp add: samples_def)
    with runs each [OF i] show "map w_vec samples ! i = vs ! i"
      by (auto simp: samples_def)
  qed
  then have vs: "vs = map w_vec samples" by simp
  have n: "length samples = nat threads" by (simp add: samples_def)
  have all: "\<forall>i < nat threads. ClientWorker (envs i) (wf_results i) = Some (samples ! i)"
    using each by simp
  show ?thesis unfolding vs by (rule RunExperiment_samples [OF pos n all])
qed


text \<open>One worker that generates a single item, due at the horizon of 5 seconds, and
  wakes up for it on time. With a backend that fails the sample set is empty; with one
  that succeeds it holds one sample of 2 microseconds, and over \<open>2 ^ 23\<close> microseconds
  the rate is \<open>10 ^ 6 / 2 ^ 23\<close> per second. Two workers on the two-item schedule whose
  second item is late: each hands over one served and one dropped item.\<close>

lemma run_single_item:
  "GenerateWork 50 (fixed_gap 5000000) stepping_blocks 0 0 0 5000000 =
     Some [\<lparr>start_us = 5000000, lba = 16, is_set = True, duration_us = 0\<rparr>]"
  by (simp add: GenerateWork_def GenerateWork_loop.simps fixed_gap_def stepping_blocks_def
      dadd_def)

lemma worker_single_item:
  "map_option w_vec (ClientWorker (woken_at_20 status)
      (Some [\<lparr>start_us = 5000000, lba = 16, is_set = True, duration_us = 0\<rparr>])) =
   Some [\<lparr>start_us = 5000000, lba = 16, is_set = True,
          duration_us = (if status = 0 then 2 else 0)\<rparr>]"
  by (simp add: ClientWorker_def Let_def replay_item_late replay_item_on_time
      late_iff micros_def double_of_int_def dsub_def woken_at_20_def served_def)

lemma experiment_all_failing:
  "RunExperiment 1 (Some rps_addr) (Some cpu_usage_addr)
     (\<lambda>i. GenerateWork 50 (fixed_gap 5000000) stepping_blocks 0 0 0 5000000)
     (\<lambda>i. woken_at_20 1) 0 6000000000 mem =
   Some ([], mem(rps_addr := Fin 0))"
  using RunExperiment_returns [of 1
      "[[\<lparr>start_us = 5000000, lba = 16, is_set = True, duration_us = 0\<rparr>]]"
      "\<lambda>i. woken_at_20 1" "\<lambda>i. GenerateWork 50 (fixed_gap 5000000) stepping_blocks 0 0 0 5000000"
      "Some rps_addr" "Some cpu_usage_addr" 0 6000000000 mem]
  by (simp add: run_single_item worker_single_item fp_div_def micros_def double_of_int_def
      double_of_nat_def dmul_def)

lemma experiment_one_served:
  "RunExperiment 1 (Some rps_addr) (Some cpu_usage_addr)
     (\<lambda>i. GenerateWork 50 (fixed_gap 5000000) stepping_blocks 0 0 0 5000000)
     (\<lambda>i. woken_at_20 0) 0 8388608000 mem =
   Some ([\<lparr>start_us = 5000000, lba = 16, is_set = True, duration_us = 2\<rparr>],
         mem(rps_addr := Fin (15625 / 131072)))"
proof -
  have a: "rnd (1 / 8388608) = 1 / 8388608"
    using is_double_dyadic [of 1 23] by (simp add: is_double_def)
  have b: "rnd (15625 / 131072) = 15625 / 131072"
    using is_double_dyadic [of 15625 17] by (simp add: is_double_def)
  show ?thesis
    using RunExperiment_returns [of 1
      "[[\<lparr>start_us = 5000000, lba = 16, is_set = True, duration_us = 2\<rparr>]]"
      "\<lambda>i. woken_at_20 0" "\<lambda>i. GenerateWork 50 (fixed_gap 5000000) stepping_blocks 0 0 0 5000000"
      "Some rps_addr" "Some cpu_usage_addr" 0 8388608000 mem]
    by (simp add: run_single_item worker_single_item fp_div_def micros_def double_of_int_def
        double_of_nat_def dmul_def a b)
qed

lemma experiment_two_workers:
  "RunExperiment 2 (Some rps_addr) (Some cpu_usage_addr)
     (\<lambda>i. Some [unit_at 20 0, unit_at 0 0]) (\<lambda>i. woken_at_20 0) 0 2097152000 mem =
   Some ([unit_at 20 2, unit_at 20 2], mem(rps_addr := Fin (15625 / 16384)))"
proof -
  have a: "rnd (1 / 1048576) = 1 / 1048576"
    using is_double_dyadic [of 1 20] by (simp add: is_double_def)
  have b: "rnd (15625 / 16384) = 15625 / 16384"
    using is_double_dyadic [of 15625 14] by (simp add: is_double_def)
  let ?vs = "[[unit_at 20 2, unit_at 0 0], [unit_at 20 2, unit_at 0 0]]"
  have runs: "\<forall>i < nat 2. map_option w_vec (ClientWorker (woken_at_20 0)
      (Some [unit_at 20 0, unit_at 0 0])) = Some (?vs ! i)"
  proof (intro allI impI)
    fix i :: nat assume "i < nat 2"
    then have "?vs ! i = [unit_at 20 2, unit_at 0 0]" by (cases i) simp_all
    then show "map_option w_vec (ClientWorker (woken_at_20 0)
      (Some [unit_at 20 0, unit_at 0 0])) = Some (?vs ! i)"
      by (simp only: run_late_and_served)
  qed
  have "RunExperiment 2 (Some rps_addr) (Some cpu_usage_addr)
     (\<lambda>i. Some [unit_at 20 0, unit_at 0 0]) (\<lambda>i. woken_at_20 0) 0 2097152000 mem =
     Some (filter (\<lambda>s. \<not> duration_us s = 0) (concat ?vs),
           case Some rps_addr of
             None \<Rightarrow> mem
           | Some p \<Rightarrow> mem(p := fp_times (fp_div
                 (double_of_nat (length (filter (\<lambda>s. \<not> duration_us s = 0) (concat ?vs))))
                 (micros 2097152000 0)) 1000000))"
    by (rule RunExperiment_returns [OF _ _ runs]) simp_all
  then show ?thesis
    by (simp add: fp_div_def micros_def double_of_int_def double_of_nat_def dmul_def a b
        unit_at_def)
qed

lemma one_percentile:
  assumes "7 / 8 \<le> q" and "q \<le> 16383 / 16384"
  shows "percentile_at [u] (rnd q) = Inr (duration_us u)"
proof -
  note p = literal_bounds [OF assms]
  have "to_size_t (dmul (double_of_nat (length [u])) (rnd q)) < length [u]"
    using p by (intro rank_in_range) simp_all
  then have "to_size_t (dmul (double_of_nat (length [u])) (rnd q)) = 0" by simp
  then show ?thesis using percentile_at_in_range [of "[u]" "rnd q"] p by simp
qed

text \<open>
  C1, at a failing input. The claim is that PrintStatResults guards the empty sample
  set and reports a degenerate record without indexing the empty sorted sequence. It has
  no such guard: on the empty set the first subscript, \<open>w[count * 0.9]\<close> with index 0,
  already lies outside the vector. A backend that fails every operation leads there.
\<close>

theorem PrintStatResults_empty:
  "PrintStatResults g [] offered rps cpu = Inl (OutOfRange 0 0) \<and>
   SteadyStateExperiment g 50 1 offered (fixed_gap 5000000) stepping_blocks (\<lambda>i. (0, 0))
     (\<lambda>i. woken_at_20 1) 0 6000000000 mem = Some (Inl (OutOfRange 0 0))"
proof -
  have e: "PrintStatResults g [] offered rps cpu = Inl (OutOfRange 0 0)" for rps cpu
    by (simp add: PrintStatResults_def percentile_at_def subscript_at_def to_size_t_def
        double_of_nat_def dmul_def)
  then show ?thesis
    by (simp add: SteadyStateExperiment_def experiment_all_failing)
qed

text \<open>
  C5. When \<open>threads\<close> is not negative and every worker is given a schedule of fewer than
  \<open>2 ^ 31\<close> items, every worker returns and so does RunExperiment. Its aggregation step
  concatenates the vectors the workers return, in worker order, and removes exactly the
  items whose latency is 0: no item of latency 0 is in the result or in its count. The
  throughput it stores is, in the double arithmetic of the source, the number of
  completed samples divided by the microseconds between the start and the finish
  reading and multiplied by 1000000; when that elapsed time is 0 the quotient is not a
  finite number.
\<close>

theorem RunExperiment_aggregates:
  assumes "0 \<le> threads"
    and "\<forall>i < nat threads. \<exists>w0. wf_results i = Some w0 \<and> length w0 < 2 ^ 31"
  shows "\<exists>samples w1 mem1.
      length samples = nat threads \<and>
      (\<forall>i < nat threads. ClientWorker (envs i) (wf_results i) = Some (samples ! i)) \<and>
      RunExperiment threads reqs_per_sec cpu_usage wf_results envs start finish mem =
        Some (w1, mem1) \<and>
      w1 = filter (\<lambda>s. duration_us s \<noteq> 0) (concat (map w_vec samples)) \<and>
      (\<forall>s \<in> set w1. duration_us s \<noteq> 0) \<and>
      set w1 = {s \<in> set (concat (map w_vec samples)). duration_us s \<noteq> 0} \<and>
      length w1 + length (filter (\<lambda>s. duration_us s = 0) (concat (map w_vec samples))) =
        length (concat (map w_vec samples)) \<and>
      (\<forall>p. reqs_per_sec = Some p \<longrightarrow>
           (micros finish start \<noteq> 0 \<longrightarrow>
              mem1 p = Fin (dmul (rnd (double_of_nat (length w1) / micros finish start))
                         1000000)) \<and>
           (micros finish start = 0 \<longrightarrow> mem1 p = NonFinite))"
proof -
  let ?f = "\<lambda>i. ClientWorker (envs i) (wf_results i)"
  define samples where "samples = map (\<lambda>i. the (?f i)) [0..<nat threads]"
  define w1 where "w1 = filter (\<lambda>s. duration_us s \<noteq> 0) (concat (map w_vec samples))"
  define mem1 where "mem1 = (case reqs_per_sec of
             None \<Rightarrow> mem
           | Some p \<Rightarrow> mem(p := fp_times (fp_div (double_of_nat (length w1))
                 (micros finish start)) 1000000))"
  have len: "length samples = nat threads" by (simp add: samples_def)
  have each: "\<forall>i < nat threads. ?f i = Some (samples ! i)"
  proof (intro allI impI)
    fix i assume i: "i < nat threads"
    with assms(2) obtain w0 where "wf_results i = Some w0" "length w0 < 2 ^ 31" by blast
    then obtain st where "?f i = Some st" using ClientWorker_replayed [of w0 "envs i"] by auto
    with i show "?f i = Some (samples ! i)" by (simp add: samples_def)
  qed
  have run: "RunExperiment threads reqs_per_sec cpu_usage wf_results envs start finish mem =
        Some (w1, mem1)"
    unfolding w1_def mem1_def by (rule RunExperiment_samples [OF assms(1) len each])
  have cnt: "length w1 + length (filter (\<lambda>s. duration_us s = 0) (concat (map w_vec samples))) =
        length (concat (map w_vec samples))"
    unfolding w1_def
    using sum_length_filter_compl [of "\<lambda>s. duration_us s = 0" "concat (map w_vec samples)"]
    by simp
  have rate: "mem1 p = Fin (dmul (rnd (double_of_nat (length w1) / micros finish start)) 1000000)"
    if "reqs_per_sec = Some p" "micros finish start \<noteq> 0" for p
    using that by (simp add: mem1_def fp_div_def)
  have norate: "mem1 p = NonFinite" if "reqs_per_sec = Some p" "micros finish start = 0" for p
    using that by (simp add: mem1_def fp_div_def)
  have props: "(\<forall>s \<in> set w1. duration_us s \<noteq> 0) \<and>
      set w1 = {s \<in> set (concat (map w_vec samples)). duration_us s \<noteq> 0}"
    unfolding w1_def by auto
  from len each run cnt rate norate props w1_def show ?thesis by blast
qed

text \<open>On the experiment with two workers: the four items handed over are concatenated,
  the two dropped ones are removed, and the two completed samples over \<open>2 ^ 21\<close>
  microseconds give the rate \<open>2 * 10 ^ 6 / 2 ^ 21\<close>.\<close>

theorem RunExperiment_aggregates_witness:
  "(0 :: int) \<le> 2 \<and> length [unit_at 20 0, unit_at 0 0] < (2 :: nat) ^ 31 \<and>
   RunExperiment 2 (Some rps_addr) (Some cpu_usage_addr)
     (\<lambda>i. Some [unit_at 20 0, unit_at 0 0]) (\<lambda>i. woken_at_20 0) 0 2097152000
     (\<lambda>a. NonFinite) =
   Some ([unit_at 20 2, unit_at 20 2], (\<lambda>a. NonFinite)(rps_addr := Fin (15625 / 16384))) \<and>
   map_option w_vec (ClientWorker (woken_at_20 0) (Some [unit_at 20 0, unit_at 0 0])) =
     Some [unit_at 20 2, unit_at 0 0] \<and>
   filter (\<lambda>s. duration_us s \<noteq> 0)
     (concat [[unit_at 20 2, unit_at 0 0], [unit_at 20 2, unit_at 0 0]]) =
     [unit_at 20 2, unit_at 20 2] \<and>
   micros 2097152000 0 \<noteq> 0 \<and>
   Fin (15625 / 16384) =
     Fin (dmul (rnd (double_of_nat (length [unit_at 20 2, unit_at 20 2]) /
                 micros 2097152000 0)) 1000000)"
proof -
  let ?mem = "\<lambda>a :: addr. NonFinite"
  let ?wf = "\<lambda>i :: nat. Some [unit_at 20 0, unit_at 0 0]"
  note run = experiment_two_workers [of ?mem]
  have m: "micros 2097152000 0 \<noteq> 0"
    by (simp add: micros_def double_of_int_def)
  have h: "\<forall>i < nat 2. \<exists>w0. ?wf i = Some w0 \<and> length w0 < 2 ^ 31" by simp
  from RunExperiment_aggregates [of 2 ?wf "\<lambda>i. woken_at_20 0" "Some rps_addr"
      "Some cpu_usage_addr" 0 2097152000 ?mem, OF _ h]
  obtain w1 mem1 where
    r: "RunExperiment 2 (Some rps_addr) (Some cpu_usage_addr) ?wf (\<lambda>i. woken_at_20 0)
          0 2097152000 ?mem = Some (w1, mem1)"
    and rate: "micros 2097152000 0 \<noteq> 0 \<longrightarrow>
        mem1 rps_addr = Fin (dmul (rnd (double_of_nat (length w1) / micros 2097152000 0)) 1000000)"
    by auto
  from r run have w1: "w1 = [unit_at 20 2, unit_at 20 2]"
    and mem1: "mem1 = ?mem(rps_addr := Fin (15625 / 16384))" by simp_all
  from rate m have "Fin (15625 / 16384) =
     Fin (dmul (rnd (double_of_nat (length [unit_at 20 2, unit_at 20 2]) /
                 micros 2097152000 0)) 1000000)"
    unfolding w1 mem1 by simp
  moreover have "filter (\<lambda>s. duration_us s \<noteq> 0)
     (concat [[unit_at 20 2, unit_at 0 0], [unit_at 20 2, unit_at 0 0]]) =
     [unit_at 20 2, unit_at 20 2]" by (simp add: unit_at_def)
  ultimately show ?thesis using run m run_late_and_served by simp
qed

text \<open>
  C10. RunExperiment writes through \<open>reqs_per_sec\<close> only: on return the memory is
  unchanged at every other address, so at the address \<open>cpu_usage\<close> points to when that
  is not the address of \<open>reqs_per_sec\<close>. In SteadyStateExperiment the two are distinct
  locals, and the \<open>cpu_usage\<close> field of the printed line is what the caller's variable
  held before the experiment.
\<close>

theorem RunExperiment_leaves_cpu_usage:
  "(RunExperiment threads reqs_per_sec cpu_usage wf_results envs start finish mem =
      Some (w1, mem1) \<longrightarrow>
      (\<forall>a. reqs_per_sec \<noteq> Some a \<longrightarrow> mem1 a = mem a) \<and>
      (\<forall>c. cpu_usage = Some c \<longrightarrow> reqs_per_sec \<noteq> Some c \<longrightarrow> mem1 c = mem c)) \<and>
   (SteadyStateExperiment g_threads pct_set threads offered_rps rd wd seeds envs start finish mem =
      Some (Inr r) \<longrightarrow> out_cpu_usage r = mem cpu_usage_addr)"
proof (intro conjI impI)
  assume run: "RunExperiment threads reqs_per_sec cpu_usage wf_results envs start finish mem =
      Some (w1, mem1)"
  then have "mem1 = (case reqs_per_sec of
               None \<Rightarrow> mem
             | Some p \<Rightarrow> mem(p := fp_times (fp_div (double_of_nat (length w1))
                                     (micros finish start)) 1000000))"
    by (rule RunExperiment_Some)
  then show "\<forall>a. reqs_per_sec \<noteq> Some a \<longrightarrow> mem1 a = mem a"
    by (auto split: option.splits)
  then show "\<forall>c. cpu_usage = Some c \<longrightarrow> reqs_per_sec \<noteq> Some c \<longrightarrow> mem1 c = mem c"
    by simp
next
  assume st: "SteadyStateExperiment g_threads pct_set threads offered_rps rd wd seeds envs
      start finish mem = Some (Inr r)"
  let ?wf = "\<lambda>i. GenerateWork pct_set rd wd (fst (seeds i)) (snd (seeds i)) 0 5000000"
  from st obtain w1 mem1 where
    run: "RunExperiment threads (Some rps_addr) (Some cpu_usage_addr) ?wf envs start finish mem =
            Some (w1, mem1)"
    and pr: "PrintStatResults g_threads w1 offered_rps (mem1 rps_addr) (mem1 cpu_usage_addr) = Inr r"
    by (auto simp: SteadyStateExperiment_def split: option.splits)
  from run have "mem1 = mem(rps_addr := fp_times (fp_div (double_of_nat (length w1))
      (micros finish start)) 1000000)"
    by (rule RunExperiment_Some) simp
  then have "mem1 cpu_usage_addr = mem cpu_usage_addr"
    by (simp add: rps_addr_def cpu_usage_addr_def)
  moreover from pr have "out_cpu_usage r = mem1 cpu_usage_addr"
    by (auto simp: PrintStatResults_def Let_def split: sum.splits)
  ultimately show "out_cpu_usage r = mem cpu_usage_addr" by simp
qed

text \<open>On the experiment with one served sample, started with 7 in every cell of the
  memory: the cell of \<open>cpu_usage\<close> still holds 7 on return, and 7 is printed.\<close>

theorem RunExperiment_leaves_cpu_usage_witness:
  "RunExperiment 1 (Some rps_addr) (Some cpu_usage_addr)
     (\<lambda>i. GenerateWork 50 (fixed_gap 5000000) stepping_blocks 0 0 0 5000000)
     (\<lambda>i. woken_at_20 0) 0 8388608000 (\<lambda>a. Fin 7) =
   Some ([\<lparr>start_us = 5000000, lba = 16, is_set = True, duration_us = 2\<rparr>],
         (\<lambda>a. Fin 7)(rps_addr := Fin (15625 / 131072))) \<and>
   Some rps_addr \<noteq> Some cpu_usage_addr \<and>
   ((\<lambda>a. Fin 7)(rps_addr := Fin (15625 / 131072))) cpu_usage_addr = Fin 7 \<and>
   SteadyStateExperiment 1 50 1 20000 (fixed_gap 5000000) stepping_blocks (\<lambda>i. (0, 0))
     (\<lambda>i. woken_at_20 0) 0 8388608000 (\<lambda>a. Fin 7) =
   Some (Inr \<lparr>out_threads = 1, out_offered_rps = 20000, out_rps = Fin (15625 / 131072),
              out_cpu_usage = Fin 7, out_samples = 1, out_min = 2, out_mean = Fin 2,
              out_p90 = 2, out_p99 = 2, out_p999 = 2, out_p9999 = 2, out_max = 2\<rparr>)"
proof -
  let ?mem = "\<lambda>a :: addr. Fin 7"
  let ?r = "\<lparr>out_threads = 1, out_offered_rps = 20000, out_rps = Fin (15625 / 131072),
              out_cpu_usage = Fin 7, out_samples = 1, out_min = 2, out_mean = Fin 2,
              out_p90 = 2, out_p99 = 2, out_p999 = 2, out_p9999 = 2, out_max = 2\<rparr>"
  note run = experiment_one_served [of ?mem]
  have distinct: "Some rps_addr \<noteq> Some cpu_usage_addr"
    by (simp add: rps_addr_def cpu_usage_addr_def)
  have c: "double_of_nat (Suc 0) = 1" by (simp add: double_of_nat_def)
  have steady: "SteadyStateExperiment 1 50 1 20000 (fixed_gap 5000000) stepping_blocks
     (\<lambda>i. (0, 0)) (\<lambda>i. woken_at_20 0) 0 8388608000 ?mem = Some (Inr ?r)"
    using run
    by (simp add: SteadyStateExperiment_def PrintStatResults_def one_percentile
        subscript_at_def fp_div_def dadd_def c rps_addr_def cpu_usage_addr_def)
  note inst = RunExperiment_leaves_cpu_usage
    [of 1 "Some rps_addr" "Some cpu_usage_addr"
      "\<lambda>i. GenerateWork 50 (fixed_gap 5000000) stepping_blocks 0 0 0 5000000"
      "\<lambda>i. woken_at_20 0" 0 8388608000 ?mem
      "[\<lparr>start_us = 5000000, lba = 16, is_set = True, duration_us = 2\<rparr>]"
      "?mem(rps_addr := Fin (15625 / 131072))" 1 50 20000 "fixed_gap 5000000" stepping_blocks
      "\<lambda>i. (0, 0)" ?r]
  from inst run distinct
  have a: "(?mem(rps_addr := Fin (15625 / 131072))) cpu_usage_addr = ?mem cpu_usage_addr"
    by blast
  from inst steady have b: "out_cpu_usage ?r = ?mem cpu_usage_addr"
    by blast
  from run distinct steady a b show ?thesis by simp
qed


section \<open>The lateness test at a rounding boundary\<close>

text \<open>
  A number within half a unit in the last place of a double rounds to it. With the
  wake-up read 5009 nanoseconds after the start and an item due at the double nearest to
  0.009, the elapsed time is the double nearest to 5.009, and its exact difference to the
  offset exceeds 5 by \<open>5 / 2 ^ 59\<close>; the difference of doubles is 5, so the test of line
  77 fails and the item is not late.
\<close>

lemma round_even_near:
  assumes "of_int m - 1 / 2 < y" and "y < of_int m + 1 / 2"
  shows "round_even y = m"
proof -
  have "round_even y \<le> round_even (of_int m + 1 / 2)"
    using assms(2) by (intro round_even_mono) simp
  have up: "round_even y \<le> m"
    using round_even_less_half [of y "m + 1"] assms(2) by simp
  have "\<lfloor>y\<rfloor> = m \<or> \<lfloor>y\<rfloor> = m - 1" using assms by linarith
  then have "m \<le> round_even y"
  proof
    assume "\<lfloor>y\<rfloor> = m"
    then show ?thesis using round_even_bounds(1) [of y] by simp
  next
    assume f: "\<lfloor>y\<rfloor> = m - 1"
    then have "1 / 2 < y - of_int \<lfloor>y\<rfloor>" using assms(1) by simp
    then show ?thesis using f by (simp add: round_even_def Let_def)
  qed
  with up show ?thesis by simp
qed

lemma rnd_near:
  assumes "0 < x" and "2 powi e \<le> x" and "x < 2 powi (e + 1)"
    and "of_int m - 1 / 2 < x / 2 powi (e - 52)" and "x / 2 powi (e - 52) < of_int m + 1 / 2"
  shows "rnd x = of_int m * 2 powi (e - 52)"
proof -
  have "expo x = e" using assms(1-3) by (rule expo_unique)
  moreover have "round_even (x / 2 powi (e - 52)) = m" using assms(4,5) by (rule round_even_near)
  ultimately show ?thesis using assms(1) by (simp add: rnd_def rnd_pos_def Let_def)
qed

lemma boundary_elapsed: "micros 5009 0 = 352477039585919 / 2 ^ 46"
proof -
  have "rnd (5009 / 1000) = of_int 5639632633374704 * 2 powi (2 - 52)"
    by (rule rnd_near) (simp_all add: power_int_def power_divide)
  then show ?thesis by (simp add: micros_def double_of_int_def power_int_def power_divide)
qed

lemma boundary_difference:
  "dsub (micros 5009 0) (5188146770730811 / 2 ^ 59) = 5"
proof -
  have "rnd (352477039585919 / 2 ^ 46 - 5188146770730811 / 2 ^ 59) =
      of_int 5629499534213120 * 2 powi (2 - 52)"
    by (rule rnd_near) (simp_all add: power_int_def power_divide)
  then show ?thesis by (simp add: dsub_def boundary_elapsed power_int_def power_divide)
qed

lemma boundary_not_late:
  assumes "now_woken e 0 = 5009" and "expstart e = 0"
    and "start_us (w0 ! 0) = 5188146770730811 / 2 ^ 59"
  shows "\<not> late e w0 0" and "5 < micros (now_woken e 0) (expstart e) - start_us (w0 ! 0)"
proof -
  have d: "dsub (micros (now_woken e 0) (expstart e)) (start_us (w0 ! 0)) = 5"
    unfolding assms by (rule boundary_difference)
  show "\<not> late e w0 0"
    unfolding late_iff d by simp
  show "5 < micros (now_woken e 0) (expstart e) - start_us (w0 ! 0)"
    unfolding assms boundary_elapsed by simp
qed

end
